theory Spec2Isabelle
  imports Complex_Main "HOL-Library.Log_Nat"
begin

section \<open>Python numbers\<close>

text \<open>
  The script \<^verbatim>\<open>assets/generate_icon.py\<close> computes with Python's unbounded \<open>int\<close> (here
  \<^typ>\<open>int\<close>) and with \<open>float\<close>, an IEEE 754 binary64. A float is modelled by the real
  number it denotes, and every float operation is the exact operation followed by
  \<open>fl\<close>, rounding to the nearest number with a 53 bit significand, ties to even.
  The exponent range is not bounded: infinities, NaN and subnormal numbers are outside the
  model (no computation of the script reaches them for an image size that fits in memory).
\<close>

definition pow2 :: "int \<Rightarrow> real" where
  "pow2 e = (if 0 \<le> e then 2 ^ nat e else 1 / 2 ^ nat (- e))"

text \<open>\<open>ilog2 x\<close> is \<open>\<lfloor>log\<^sub>2 \<bar>x\<bar>\<rfloor>\<close> for \<open>x \<noteq> 0\<close>, computed on integers.\<close>

definition ilog2 :: "real \<Rightarrow> int" where
  "ilog2 x = (if 1 \<le> \<bar>x\<bar> then bitlen \<lfloor>\<bar>x\<bar>\<rfloor> - 1 else - bitlen (\<lceil>1 / \<bar>x\<bar>\<rceil> - 1))"

definition round_half_even :: "real \<Rightarrow> int" where
  "round_half_even x =
     (let n = \<lfloor>x\<rfloor>; r = x - of_int n
      in if r < 1 / 2 then n else if 1 / 2 < r then n + 1 else if even n then n else n + 1)"

definition fl :: "real \<Rightarrow> real" where
  "fl x = (if x = 0 then 0
           else let e = ilog2 x - 52 in of_int (round_half_even (x / pow2 e)) * pow2 e)"

definition fadd :: "real \<Rightarrow> real \<Rightarrow> real" where
  "fadd x y = fl (x + y)"

definition fsub :: "real \<Rightarrow> real \<Rightarrow> real" where
  "fsub x y = fl (x - y)"

definition fmul :: "real \<Rightarrow> real \<Rightarrow> real" where
  "fmul x y = fl (x * y)"

text \<open>Float division; no divisor of the script is zero (1024.0, 30, 150, 4, \<open>steps \<ge> 8\<close>).\<close>

definition fdiv :: "real \<Rightarrow> real \<Rightarrow> real" where
  "fdiv x y = fl (x / y)"

text \<open>\<open>float(n)\<close>, the implicit conversion of an int operand in mixed arithmetic.\<close>

definition float_of_int :: "int \<Rightarrow> real" where
  "float_of_int n = fl (of_int n)"

text \<open>\<open>a / b\<close> on two ints: the correctly rounded quotient.\<close>

definition int_truediv :: "int \<Rightarrow> int \<Rightarrow> real" where
  "int_truediv a b = fl (of_int a / of_int b)"

text \<open>\<open>int(x)\<close> on a float truncates toward zero.\<close>

definition py_int :: "real \<Rightarrow> int" where
  "py_int x = (if 0 \<le> x then \<lfloor>x\<rfloor> else \<lceil>x\<rceil>)"

text \<open>\<open>math.sqrt\<close>: IEEE 754 requires the correctly rounded square root.\<close>

definition math_sqrt :: "real \<Rightarrow> real" where
  "math_sqrt x = fl (sqrt x)"

text \<open>\<open>math.pi\<close> is the double \<open>0x1.921fb54442d18p+1\<close>.\<close>

definition math_pi :: real where
  "math_pi = 884279719003555 / 2 ^ 48"

text \<open>
  \<open>math.sin\<close> and \<open>math.cos\<close> come from the platform's C library, which does not
  promise correct rounding: they are parameters of the model.
\<close>

record libm =
  m_sin :: "real \<Rightarrow> real"
  m_cos :: "real \<Rightarrow> real"

section \<open>The canvas (PIL's Image and ImageDraw)\<close>

type_synonym color = "int \<times> int \<times> int"

datatype img_mode = L | RGB | RGBA

record image =
  im_mode :: img_mode
  im_size :: "int \<times> int"
  im_data :: "color list list"

datatype error = ImportError | ValueError | FileExistsError | IsADirectoryError
  | NotADirectoryError | UnicodeEncodeError

text \<open>\<open>Image.new(mode, (w, h), color)\<close>; PIL rejects a negative width or height.\<close>

definition Image_new :: "img_mode \<Rightarrow> int \<times> int \<Rightarrow> color \<Rightarrow> error + image" where
  "Image_new m wh c =
     (case wh of (w, h) \<Rightarrow>
        if w < 0 \<or> h < 0 then Inl ValueError
        else Inr \<lparr>im_mode = m, im_size = (w, h),
                  im_data = replicate (nat h) (replicate (nat w) c)\<rparr>)"

type_synonym bbox = "int \<times> int \<times> int \<times> int"

text \<open>
  \<open>ImageDraw.ellipse([x0, y0, x1, y1], fill)\<close> belongs to PIL, not to the repository. It is
  modelled as filling the pixels of the ellipse inscribed in the bounding box, both corners
  included; what falls outside the canvas is clipped. Every call of the script passes
  \<open>x0 \<le> x1\<close> and \<open>y0 \<le> y1\<close>.
\<close>

definition in_ellipse :: "bbox \<Rightarrow> int \<times> int \<Rightarrow> bool" where
  "in_ellipse bb p =
     (case bb of (x0, y0, x1, y1) \<Rightarrow> case p of (px, py) \<Rightarrow>
        x0 \<le> px \<and> px \<le> x1 \<and> y0 \<le> py \<and> py \<le> y1 \<and>
        (2 * px - x0 - x1)\<^sup>2 * (y1 - y0)\<^sup>2 + (2 * py - y0 - y1)\<^sup>2 * (x1 - x0)\<^sup>2
          \<le> (x1 - x0)\<^sup>2 * (y1 - y0)\<^sup>2)"

definition ellipse :: "bbox \<Rightarrow> color \<Rightarrow> image \<Rightarrow> image" where
  "ellipse bb fill img =
     img\<lparr>im_data :=
       map (\<lambda>(y, row). map (\<lambda>(x, p). if in_ellipse bb (int x, int y) then fill else p)
                             (enumerate 0 row))
           (enumerate 0 (im_data img))\<rparr>"

text \<open>\<open>img.getpixel((x, y))\<close> for a pixel of the canvas.\<close>

definition getpixel :: "image \<Rightarrow> nat \<times> nat \<Rightarrow> color" where
  "getpixel img p = (case p of (x, y) \<Rightarrow> im_data img ! y ! x)"

section \<open>generate_icon: the background\<close>

definition num_layers :: nat where
  "num_layers = 30"

definition layer_radius :: "int \<Rightarrow> nat \<Rightarrow> int" where
  "layer_radius max_radius i =
     py_int (fmul (float_of_int max_radius) (fsub 1 (int_truediv (int i) (int num_layers))))"

definition layer_color :: "nat \<Rightarrow> color" where
  "layer_color i =
     (let ratio = int_truediv (int i) (int num_layers)
      in (py_int (fadd 99 (fmul (float_of_int (139 - 99)) ratio)),
          py_int (fadd 102 (fmul (float_of_int (92 - 102)) ratio)),
          py_int (fadd 241 (fmul (float_of_int (246 - 241)) ratio))))"

text \<open>The loop over \<open>range(num_layers)\<close>; it stops at the first radius \<open>\<le> 0\<close>.\<close>

fun background :: "int \<Rightarrow> int \<Rightarrow> nat list \<Rightarrow> image \<Rightarrow> image" where
  "background center max_radius [] img = img"
| "background center max_radius (i # is) img =
     (let radius = layer_radius max_radius i
      in if radius \<le> 0 then img
         else background center max_radius is
                (ellipse (center - radius, center - radius, center + radius, center + radius)
                   (layer_color i) img))"

section \<open>generate_icon: the curve\<close>

definition num_points :: nat where
  "num_points = 150"

definition white :: color where
  "white = (255, 255, 255)"

definition curve_point :: "libm \<Rightarrow> real \<Rightarrow> nat \<Rightarrow> int \<times> int" where
  "curve_point lm scale i =
     (let t = int_truediv (int i) (int num_points);
          base_x = fadd 200 (fmul (float_of_int (800 - 200)) t);
          base_y = fadd 750 (fmul (float_of_int (250 - 750)) t);
          offset_x = fmul (fmul 80 (m_sin lm (fmul (fmul t math_pi) (fl (12 / 10)))))
                          (fsub 1 (fmul t (fl (3 / 10))));
          offset_y = fmul (fmul (fmul 80 (fl (6 / 10)))
                                (m_cos lm (fmul (fmul (fmul t math_pi) (fl (12 / 10)))
                                                (fl (11 / 10)))))
                          (fsub 1 (fmul t (fl (2 / 10))))
      in (py_int (fmul (fadd base_x offset_x) scale),
          py_int (fmul (fadd base_y offset_y) scale)))"

definition curve_points :: "libm \<Rightarrow> real \<Rightarrow> (int \<times> int) list" where
  "curve_points lm scale = map (curve_point lm scale) [0..<num_points]"

text \<open>
  The taper: the \<open>if\<close>/\<open>elif\<close>/\<open>else\<close> on the index, an int in the first loop and the float
  \<open>point_idx\<close> in the second; \<open>n\<close> is \<open>len(points)\<close>.
\<close>

definition current_width :: "int \<Rightarrow> int \<Rightarrow> real \<Rightarrow> int" where
  "current_width line_width n idx =
     (if idx < 10 \<or> idx > of_int (n - 10) then py_int (fmul (float_of_int line_width) (fl (6 / 10)))
      else if idx < 20 \<or> idx > of_int (n - 20) then py_int (fmul (float_of_int line_width) (fl (8 / 10)))
      else line_width)"

text \<open>One filled white circle: the \<open>draw.ellipse\<close> call shared by both loops.\<close>

definition disc :: "int \<Rightarrow> int \<times> int \<Rightarrow> bbox" where
  "disc w p = (case p of (x, y) \<Rightarrow> (x - w div 2, y - w div 2, x + w div 2, y + w div 2))"

definition draw_samples :: "int \<Rightarrow> (int \<times> int) list \<Rightarrow> image \<Rightarrow> image" where
  "draw_samples line_width points img =
     fold (\<lambda>i. ellipse (disc (current_width line_width (int (length points)) (of_nat i))
                              (points ! i)) white)
          [0..<length points] img"

definition segment_steps :: "int \<times> int \<Rightarrow> int \<times> int \<Rightarrow> int" where
  "segment_steps p1 p2 =
     (case p1 of (x1, y1) \<Rightarrow> case p2 of (x2, y2) \<Rightarrow>
        max (py_int (fdiv (math_sqrt (float_of_int ((x2 - x1)\<^sup>2 + (y2 - y1)\<^sup>2))) 4)) 8)"

definition substep_point :: "int \<times> int \<Rightarrow> int \<times> int \<Rightarrow> real \<Rightarrow> int \<times> int" where
  "substep_point p1 p2 t =
     (case p1 of (x1, y1) \<Rightarrow> case p2 of (x2, y2) \<Rightarrow>
        (py_int (fadd (float_of_int x1) (fmul (float_of_int (x2 - x1)) t)),
         py_int (fadd (float_of_int y1) (fmul (float_of_int (y2 - y1)) t))))"

text \<open>The width of sub-step \<open>j\<close> of segment \<open>i\<close>: \<open>point_idx = i + t\<close> with \<open>t = j / steps\<close>.\<close>

definition substep_width :: "int \<Rightarrow> int \<Rightarrow> nat \<Rightarrow> int \<Rightarrow> nat \<Rightarrow> int" where
  "substep_width line_width n i steps j =
     current_width line_width n (fadd (float_of_int (int i)) (int_truediv (int j) steps))"

definition draw_segment :: "int \<Rightarrow> (int \<times> int) list \<Rightarrow> nat \<Rightarrow> image \<Rightarrow> image" where
  "draw_segment line_width points i img =
     (let p1 = points ! i; p2 = points ! (i + 1); steps = segment_steps p1 p2
      in fold (\<lambda>j. ellipse (disc (substep_width line_width (int (length points)) i steps j)
                                  (substep_point p1 p2 (int_truediv (int j) steps))) white)
              [1..<nat steps] img)"

definition draw_segments :: "int \<Rightarrow> (int \<times> int) list \<Rightarrow> image \<Rightarrow> image" where
  "draw_segments line_width points img =
     fold (draw_segment line_width points) [0..<length points - 1] img"

definition draw_elegant_curve :: "libm \<Rightarrow> real \<Rightarrow> int \<Rightarrow> image \<Rightarrow> image" where
  "draw_elegant_curve lm scale line_width img =
     (let points = curve_points lm scale
      in draw_segments line_width points (draw_samples line_width points img))"

section \<open>generate_icon: the canvas it renders\<close>

definition line_width_of :: "int \<Rightarrow> int" where
  "line_width_of sz = py_int (fmul 16 (fdiv (float_of_int sz) 1024))"

definition max_radius_of :: "int \<Rightarrow> int" where
  "max_radius_of sz = py_int (fmul (float_of_int sz) (fl (72 / 100)))"

text \<open>Everything \<open>generate_icon\<close> does to the image between \<open>Image.new\<close> and \<open>img.save\<close>.\<close>

definition paint :: "libm \<Rightarrow> int \<Rightarrow> image \<Rightarrow> image" where
  "paint lm sz img =
     (let scale = fdiv (float_of_int sz) 1024;
          center = sz div 2;
          max_radius = max_radius_of sz;
          img1 = background center max_radius [0..<num_layers] img;
          line_width = line_width_of sz
      in draw_elegant_curve lm scale line_width img1)"

definition render :: "libm \<Rightarrow> int \<Rightarrow> error + image" where
  "render lm sz =
     (case Image_new RGB (sz, sz) (99, 102, 241) of
        Inl e \<Rightarrow> Inl e
      | Inr img \<Rightarrow> Inr (paint lm sz img))"

section \<open>The file system and the console\<close>

text \<open>
  A path is the list of its components below the root. The file system maps a path to
  what is there; the console is the list of printed lines, one constructor per
  \<open>print\<close> call of the script. Two of the printed characters are outside ASCII: the check
  mark U+2713 and the warning sign U+26A0. The encoding of standard output decides which
  of them can be written; Shift_JISX0213, for one, has the check mark and lacks the
  warning sign. File names are taken to be ASCII, which every such encoding has.
\<close>

type_synonym path = "string list"

datatype content = Png image | Other

datatype node = Dir | File content

datatype message =
    Installing
  | Generated path int
  | Copied path
  | NotFound path
  | PleaseCopy path
  | Complete

datatype symbol = CheckMark | WarningSign

record world =
  pil_importable :: bool
  pip_installs :: bool
  fs :: "path \<rightharpoonup> node"
  console :: "message list"
  stdout_encodes :: "symbol \<Rightarrow> bool"

text \<open>The characters outside ASCII in each line, as the f-strings of the script have them.\<close>

fun symbols :: "message \<Rightarrow> symbol list" where
  "symbols Installing = []"
| "symbols (Generated p sz) = [CheckMark]"
| "symbols (Copied p) = [CheckMark]"
| "symbols (NotFound p) = [WarningSign]"
| "symbols (PleaseCopy p) = []"
| "symbols Complete = [CheckMark]"

text \<open>
  \<open>print(line)\<close>: the line is encoded for standard output before anything of it is
  written; a character that the encoding lacks raises UnicodeEncodeError.
\<close>

definition print :: "message \<Rightarrow> world \<Rightarrow> error + world" where
  "print m w =
     (if list_all (stdout_encodes w) (symbols m) then Inr (w\<lparr>console := console w @ [m]\<rparr>)
      else Inl UnicodeEncodeError)"

definition lookup :: "world \<Rightarrow> path \<Rightarrow> node option" where
  "lookup w p = (if p = [] then Some Dir else fs w p)"

definition exists :: "world \<Rightarrow> path \<Rightarrow> bool" where
  "exists w p = (lookup w p \<noteq> None)"

text \<open>
  \<open>os.makedirs(p, exist_ok=True)\<close>: missing ancestors are created first; a regular file
  at \<open>p\<close> raises FileExistsError, one at an ancestor NotADirectoryError.
\<close>

function makedirs :: "path \<Rightarrow> world \<Rightarrow> error + world" where
  "makedirs p w =
     (case lookup w p of
        Some Dir \<Rightarrow> Inr w
      | Some (File c) \<Rightarrow> Inl FileExistsError
      | None \<Rightarrow>
          (case makedirs (butlast p) w of
             Inl e \<Rightarrow> Inl NotADirectoryError
           | Inr w' \<Rightarrow> Inr (w'\<lparr>fs := (fs w')(p \<mapsto> Dir)\<rparr>)))"
  by pat_completeness auto
termination
  by (relation "measure (\<lambda>(p, w). length p)") (auto simp: lookup_def split: if_splits)

declare makedirs.simps [simp del]

text \<open>\<open>img.save(p, 'PNG')\<close>: the file at \<open>p\<close> is created or overwritten.\<close>

definition save :: "image \<Rightarrow> path \<Rightarrow> world \<Rightarrow> error + world" where
  "save img p w =
     (case lookup w p of
        Some Dir \<Rightarrow> Inl IsADirectoryError
      | _ \<Rightarrow>
        (case lookup w (butlast p) of
           Some Dir \<Rightarrow> Inr (w\<lparr>fs := (fs w)(p \<mapsto> File (Png img))\<rparr>)
         | _ \<Rightarrow> Inl NotADirectoryError))"




definition digit_char :: "nat \<Rightarrow> char" where
  "digit_char d = ''0123456789'' ! d"

fun show_nat :: "nat \<Rightarrow> string" where
  "show_nat n =
     (if n < 10 then [digit_char n] else show_nat (n div 10) @ [digit_char (n mod 10)])"

declare show_nat.simps [simp del]

definition show_int :: "int \<Rightarrow> string" where
  "show_int i = (if i < 0 then CHR ''-'' # show_nat (nat (- i)) else show_nat (nat i))"

section \<open>generate_icon and the script\<close>

text \<open>
  A call returns the world it leaves behind and either the exception that ended it or its
  value.
\<close>

definition icon_name :: "int \<Rightarrow> string" where
  "icon_name sz = ''AppIcon-'' @ show_int sz @ ''x'' @ show_int sz @ ''.png''"

definition generate_icon :: "libm \<Rightarrow> path \<Rightarrow> int \<Rightarrow> world \<Rightarrow> world \<times> (error + path)" where
  "generate_icon lm output_dir sz w =
     (case makedirs output_dir w of
        Inl e \<Rightarrow> (w, Inl e)
      | Inr w1 \<Rightarrow>
        (case render lm sz of
           Inl e \<Rightarrow> (w1, Inl e)
         | Inr img \<Rightarrow>
           (let output_path = output_dir @ [icon_name sz]
            in case save img output_path w1 of
                 Inl e \<Rightarrow> (w1, Inl e)
               | Inr w2 \<Rightarrow>
                 (case print (Generated output_path sz) w2 of
                    Inl e \<Rightarrow> (w2, Inl e)
                  | Inr w3 \<Rightarrow> (w3, Inr output_path)))))"

text \<open>
  The \<open>try\<close>/\<open>except ImportError\<close> at the top of the module: a failed import prints, runs
  pip through \<open>os.system\<close> and imports again, outside any handler. The result says whether
  PIL is imported; it is not when the handler itself ends in an exception.
\<close>

definition import_pil :: "world \<Rightarrow> world \<times> bool" where
  "import_pil w =
     (if pil_importable w then (w, True)
      else case print Installing w of
             Inl e \<Rightarrow> (w, False)
           | Inr w1 \<Rightarrow>
             (let w2 = w1\<lparr>pil_importable := pip_installs w1\<rparr>
              in (w2, pil_importable w2)))"




section \<open>Properties of a rendered canvas\<close>

text \<open>An \<open>sz \<times> sz\<close> RGB canvas: \<open>sz\<close> rows of \<open>sz\<close> pixels, each a triple of channels.\<close>

definition well_formed :: "int \<Rightarrow> image \<Rightarrow> bool" where
  "well_formed sz img \<longleftrightarrow>
     0 \<le> sz \<and> im_mode img = RGB \<and> im_size img = (sz, sz) \<and>
     length (im_data img) = nat sz \<and> list_all (\<lambda>row. length row = nat sz) (im_data img)"


section \<open>Concrete inputs\<close>

text \<open>
  A C library to instantiate the theorems with: Taylor polynomials of degree 29, clamped
  to \<open>[-1, 1]\<close> and rounded.
\<close>

definition taylor_libm :: libm where
  "taylor_libm =
     \<lparr>m_sin = (\<lambda>x. fl (max (- 1) (min 1 (\<Sum>m<30. sin_coeff m * x ^ m)))),
      m_cos = (\<lambda>x. fl (max (- 1) (min 1 (\<Sum>m<30. cos_coeff m * x ^ m))))\<rparr>"

text \<open>A checkout of the repository with PIL installed and nothing generated yet.\<close>

definition script_path :: path where
  "script_path = [''repo'', ''assets'', ''generate_icon.py'']"

definition fresh_world :: world where
  "fresh_world =
     \<lparr>pil_importable = True, pip_installs = False,
      fs = [[''repo''] \<mapsto> Dir, [''repo'', ''assets''] \<mapsto> Dir,
            script_path \<mapsto> File Other],
      console = [], stdout_encodes = (\<lambda>c. True)\<rparr>"





text \<open>
  The width of the circle at sample \<open>i\<close>, as the first loop of \<open>draw_elegant_curve\<close> computes
  it for an image of size \<open>sz\<close>, and the two narrower widths of the taper.
\<close>

definition sample_width :: "int \<Rightarrow> nat \<Rightarrow> int" where
  "sample_width sz i = current_width (line_width_of sz) (int num_points) (of_nat i)"

definition taper_60 :: "int \<Rightarrow> int" where
  "taper_60 sz = py_int (fmul (float_of_int (line_width_of sz)) (fl (6 / 10)))"

definition taper_80 :: "int \<Rightarrow> int" where
  "taper_80 sz = py_int (fmul (float_of_int (line_width_of sz)) (fl (8 / 10)))"

text \<open>The bounding box of the circle of layer \<open>i\<close>, as the background loop passes it.\<close>

definition layer_box :: "int \<Rightarrow> int \<Rightarrow> nat \<Rightarrow> bbox" where
  "layer_box center max_radius i =
     (let radius = layer_radius max_radius i
      in (center - radius, center - radius, center + radius, center + radius))"

text \<open>
  The width that the specification describes for a sub-step: interpolated by the fractional
  position \<open>t\<close> between the taper classes \<open>w1\<close> and \<open>w2\<close> of the two adjacent samples.
\<close>

definition interpolated_width :: "int \<Rightarrow> int \<Rightarrow> real \<Rightarrow> real" where
  "interpolated_width w1 w2 t = of_int w1 + of_int (w2 - w1) * t"

text \<open>150 points on a straight line, four pixels right and three up per step.\<close>

definition straight_points :: "(int \<times> int) list" where
  "straight_points = map (\<lambda>k. (200 + 4 * int k, 750 - 3 * int k)) [0..<150]"

text \<open>
  What every C library guarantees of \<open>sin\<close> and \<open>cos\<close>: results between \<open>-1\<close> and \<open>1\<close>.
\<close>

definition libm_bounded :: "libm \<Rightarrow> bool" where
  "libm_bounded lm \<longleftrightarrow> (\<forall>x. \<bar>m_sin lm x\<bar> \<le> 1 \<and> \<bar>m_cos lm x\<bar> \<le> 1)"

text \<open>
  The bounding boxes of all circles that \<open>draw_elegant_curve\<close> draws, in the order of the
  calls: one per sample, then the sub-steps of each segment. A box is inside the canvas when
  all its pixels are, so that nothing of the circle is clipped.
\<close>

definition inside_canvas :: "int \<Rightarrow> bbox \<Rightarrow> bool" where
  "inside_canvas sz bb =
     (case bb of (x0, y0, x1, y1) \<Rightarrow>
        0 \<le> x0 \<and> x0 \<le> x1 \<and> x1 < sz \<and> 0 \<le> y0 \<and> y0 \<le> y1 \<and> y1 < sz)"

definition sample_discs :: "int \<Rightarrow> (int \<times> int) list \<Rightarrow> bbox list" where
  "sample_discs line_width points =
     map (\<lambda>i. disc (current_width line_width (int (length points)) (of_nat i)) (points ! i))
       [0..<length points]"

definition segment_discs :: "int \<Rightarrow> (int \<times> int) list \<Rightarrow> nat \<Rightarrow> bbox list" where
  "segment_discs line_width points i =
     (let p1 = points ! i; p2 = points ! (i + 1); steps = segment_steps p1 p2
      in map (\<lambda>j. disc (substep_width line_width (int (length points)) i steps j)
                       (substep_point p1 p2 (int_truediv (int j) steps)))
           [1..<nat steps])"

definition curve_discs :: "libm \<Rightarrow> int \<Rightarrow> bbox list" where
  "curve_discs lm sz =
     (let points = curve_points lm (fdiv (float_of_int sz) 1024);
          line_width = line_width_of sz
      in sample_discs line_width points @
         concat (map (segment_discs line_width points) [0..<length points - 1]))"

text \<open>
  An accuracy every C library exceeds by far: on the arguments the script uses, sine and
  cosine are within \<open>2\<^sup>-\<^sup>3\<^sup>0\<close> of the true value.
\<close>

definition libm_accurate :: "libm \<Rightarrow> bool" where
  "libm_accurate lm \<longleftrightarrow>
     (\<forall>x. 0 \<le> x \<and> x \<le> 5 \<longrightarrow>
        \<bar>m_sin lm x - sin x\<bar> \<le> 1 / 2 ^ 30 \<and> \<bar>m_cos lm x - cos x\<bar> \<le> 1 / 2 ^ 30)"

text \<open>
  The two floats that \<open>curve_point\<close> scales and truncates: base plus offset, before the
  multiplication by \<open>scale\<close>.
\<close>

definition curve_x :: "libm \<Rightarrow> nat \<Rightarrow> real" where
  "curve_x lm i =
     (let t = int_truediv (int i) (int num_points);
          base_x = fadd 200 (fmul (float_of_int (800 - 200)) t);
          offset_x = fmul (fmul 80 (m_sin lm (fmul (fmul t math_pi) (fl (12 / 10)))))
                          (fsub 1 (fmul t (fl (3 / 10))))
      in fadd base_x offset_x)"

definition curve_y :: "libm \<Rightarrow> nat \<Rightarrow> real" where
  "curve_y lm i =
     (let t = int_truediv (int i) (int num_points);
          base_y = fadd 750 (fmul (float_of_int (250 - 750)) t);
          offset_y = fmul (fmul (fmul 80 (fl (6 / 10)))
                                (m_cos lm (fmul (fmul (fmul t math_pi) (fl (12 / 10)))
                                                (fl (11 / 10)))))
                          (fsub 1 (fmul t (fl (2 / 10))))
      in fadd base_y offset_y)"

text \<open>
  The arguments that \<open>curve_point\<close> passes to \<open>math.sin\<close> and \<open>math.cos\<close> for sample
  \<open>i\<close>: \<open>t * math.pi * wave_frequency\<close> and \<open>t * math.pi * wave_frequency * 1.1\<close>.
\<close>

definition wave_x :: "nat \<Rightarrow> real" where
  "wave_x i = fmul (fmul (int_truediv (int i) (int num_points)) math_pi) (fl (12 / 10))"

definition wave_y :: "nat \<Rightarrow> real" where
  "wave_y i = fmul (wave_x i) (fl (11 / 10))"

text \<open>
  What the specification says of the corners: a pixel is outside the radius \<open>r\<close> around the
  centre \<open>(center, center)\<close>. The corners of a canvas of size \<open>sz\<close>.
\<close>

definition outside_radius :: "int \<Rightarrow> int \<Rightarrow> int \<times> int \<Rightarrow> bool" where
  "outside_radius center r p = (case p of (px, py) \<Rightarrow> r\<^sup>2 < (px - center)\<^sup>2 + (py - center)\<^sup>2)"

definition corners :: "int \<Rightarrow> (int \<times> int) list" where
  "corners sz = [(0, 0), (sz - 1, 0), (0, sz - 1), (sz - 1, sz - 1)]"

text \<open>The unit roundoff of binary64: the relative error of one rounding.\<close>

definition ulp53 :: real where
  "ulp53 = 1 / 2 ^ 53"

text \<open>
  The layers that the background loop draws: those before the first radius \<open>\<le> 0\<close>, where
  the loop ends.
\<close>

definition drawn_layers :: "int \<Rightarrow> nat list" where
  "drawn_layers max_radius = takeWhile (\<lambda>i. 0 < layer_radius max_radius i) [0..<num_layers]"

section \<open>Rounding to binary64\<close>

lemma pow2_pos [simp]: "0 < pow2 e"
  by (simp add: pow2_def)

lemma pow2_nonneg [simp]: "0 \<le> pow2 e"
  by (simp add: pow2_def)

lemma pow2_powr: "pow2 e = 2 powr (of_int e)"
proof (cases "0 \<le> e")
  case True
  then show ?thesis
    by (simp add: pow2_def powr_realpow[symmetric])
next
  case False
  then have "(2::real) powr (of_int e) = 1 / 2 powr (of_int (- e))"
    by (simp add: powr_minus_divide)
  also have "\<dots> = 1 / 2 ^ nat (- e)"
    using False by (simp add: powr_realpow[symmetric])
  finally show ?thesis using False by (simp add: pow2_def)
qed

lemma pow2_add: "pow2 (a + b) = pow2 a * pow2 b"
  by (simp add: pow2_powr powr_add)

lemma pow2_diff: "pow2 (a - b) = pow2 a / pow2 b"
  by (simp add: pow2_powr powr_diff)

lemma pow2_mono: "a \<le> b \<Longrightarrow> pow2 a \<le> pow2 b"
  by (simp add: pow2_powr)

lemma pow2_strict_mono: "a < b \<Longrightarrow> pow2 a < pow2 b"
  by (simp add: pow2_powr)

lemma pow2_0 [simp]: "pow2 0 = 1"
  by (simp add: pow2_def)

lemma pow2_nat: "pow2 (int n) = 2 ^ n"
  by (simp add: pow2_def)

lemma pow2_neq0 [simp]: "pow2 e \<noteq> 0"
  by (simp add: pow2_def)

lemma pow2_numeral: "pow2 (numeral n) = 2 ^ numeral n" "pow2 1 = 2"
  "pow2 (- numeral n) = 1 / 2 ^ numeral n"
  by (simp_all add: pow2_def)

lemma ilog2_bounds:
  assumes "x \<noteq> 0"
  shows "pow2 (ilog2 x) \<le> \<bar>x\<bar>" and "\<bar>x\<bar> < pow2 (ilog2 x + 1)"
proof -
  have "pow2 (ilog2 x) \<le> \<bar>x\<bar> \<and> \<bar>x\<bar> < pow2 (ilog2 x + 1)"
  proof (cases "1 \<le> \<bar>x\<bar>")
    case True
    define n where "n = \<lfloor>\<bar>x\<bar>\<rfloor>"
    have n: "0 < n" using True by (simp add: n_def)
    then have b1: "1 \<le> bitlen n" by (simp add: bitlen_alt_def)
    from bitlen_bounds[OF n] have lo: "2 ^ nat (bitlen n - 1) \<le> n" and hi: "n < 2 ^ nat (bitlen n)"
      by auto
    have "real_of_int (2 ^ nat (bitlen n - 1)) \<le> real_of_int n" using lo by linarith
    also have "\<dots> \<le> \<bar>x\<bar>" by (simp add: n_def)
    finally have A: "pow2 (bitlen n - 1) \<le> \<bar>x\<bar>" using b1 by (simp add: pow2_def)
    from hi have "n + 1 \<le> 2 ^ nat (bitlen n)" by simp
    then have "real_of_int (n + 1) \<le> real_of_int (2 ^ nat (bitlen n))" by linarith
    moreover have "\<bar>x\<bar> < real_of_int (n + 1)" by (simp add: n_def)
    ultimately have B: "\<bar>x\<bar> < pow2 (bitlen n)" using b1 by (simp add: pow2_def)
    from A B True show ?thesis by (simp add: ilog2_def n_def)
  next
    case False
    define y where "y = 1 / \<bar>x\<bar>"
    define n where "n = \<lceil>y\<rceil>"
    define k where "k = bitlen (n - 1)"
    have xpos: "0 < \<bar>x\<bar>" using assms by simp
    have y1: "1 < y" using False xpos by (simp add: y_def)
    then have n2: "2 \<le> n" unfolding n_def by linarith
    then have n1: "0 < n - 1" by simp
    then have k1: "1 \<le> k" by (simp add: k_def bitlen_alt_def)
    from bitlen_bounds[OF n1] have lo: "2 ^ nat (k - 1) \<le> n - 1" and hi: "n - 1 < 2 ^ nat k"
      by (auto simp: k_def)
    have "y \<le> real_of_int n" by (simp add: n_def)
    also have "real_of_int n \<le> real_of_int (2 ^ nat k)" using hi by linarith
    finally have "y \<le> 2 ^ nat k" by simp
    then have "1 / \<bar>x\<bar> \<le> 2 ^ nat k" by (simp add: y_def)
    then have A: "1 / 2 ^ nat k \<le> \<bar>x\<bar>" using xpos
      by (simp add: field_simps)
    have "real_of_int (2 ^ nat (k - 1)) \<le> real_of_int (n - 1)" using lo by linarith
    also have "real_of_int (n - 1) < y" unfolding n_def by linarith
    finally have "2 ^ nat (k - 1) < 1 / \<bar>x\<bar>" by (simp add: y_def)
    then have B: "\<bar>x\<bar> < 1 / 2 ^ nat (k - 1)" using xpos
      by (simp add: field_simps)
    have il: "ilog2 x = - k" using False by (simp add: ilog2_def k_def n_def y_def)
    have pk: "pow2 (- k) = 1 / 2 ^ nat k" using k1 by (simp add: pow2_def)
    have pk1: "pow2 (1 - k) = 1 / 2 ^ nat (k - 1)"
    proof (cases "k = 1")
      case True then show ?thesis by (simp add: pow2_def)
    next
      case False
      with k1 have "\<not> 0 \<le> 1 - k" by simp
      moreover have "nat (- (1 - k)) = nat (k - 1)" by simp
      ultimately show ?thesis unfolding pow2_def by simp
    qed
    from A B show ?thesis by (simp add: il pk pk1)
  qed
  then show "pow2 (ilog2 x) \<le> \<bar>x\<bar>" and "\<bar>x\<bar> < pow2 (ilog2 x + 1)" by auto
qed

lemma round_half_even_bounds:
  "\<bar>of_int (round_half_even x) - x\<bar> \<le> 1 / 2"
  unfolding round_half_even_def Let_def by (auto simp: abs_le_iff)

lemma round_half_even_of_int [simp]: "round_half_even (of_int n) = n"
  by (simp add: round_half_even_def)

lemma round_half_even_mono:
  assumes "x \<le> y" shows "round_half_even x \<le> round_half_even y"
proof (cases "\<lfloor>x\<rfloor> = \<lfloor>y\<rfloor>")
  case True
  then show ?thesis using assms unfolding round_half_even_def Let_def by auto
next
  case False
  with assms have "\<lfloor>x\<rfloor> < \<lfloor>y\<rfloor>" by (simp add: floor_mono order.strict_iff_order)
  then have "\<lfloor>x\<rfloor> + 1 \<le> \<lfloor>y\<rfloor>" by simp
  moreover have "round_half_even x \<le> \<lfloor>x\<rfloor> + 1" unfolding round_half_even_def Let_def by auto
  moreover have "\<lfloor>y\<rfloor> \<le> round_half_even y" unfolding round_half_even_def Let_def by auto
  ultimately show ?thesis by linarith
qed

lemma round_half_even_minus: "round_half_even (- x) = - round_half_even x"
proof (cases "x = of_int \<lfloor>x\<rfloor>")
  case True
  then obtain n where "x = of_int n" ..
  then have "- x = of_int (- n)" by simp
  then show ?thesis using \<open>x = of_int n\<close> by (simp only: round_half_even_of_int)
next
  case False
  then have "\<lceil>x\<rceil> = \<lfloor>x\<rfloor> + 1" by (simp add: ceiling_altdef)
  then have fl: "\<lfloor>- x\<rfloor> = - \<lfloor>x\<rfloor> - 1" by (simp add: ceiling_def)
  show ?thesis
    unfolding round_half_even_def Let_def fl by (auto simp: field_simps)
qed

lemma fl_0 [simp]: "fl 0 = 0"
  by (simp add: fl_def)

lemma ilog2_minus [simp]: "ilog2 (- x) = ilog2 x"
  by (simp add: ilog2_def)

lemma fl_minus: "fl (- x) = - fl x"
  by (simp add: fl_def Let_def round_half_even_minus)

lemma fl_scaled_bounds:
  assumes "x \<noteq> 0"
  shows "2 ^ 52 \<le> \<bar>x / pow2 (ilog2 x - 52)\<bar>" and "\<bar>x / pow2 (ilog2 x - 52)\<bar> < 2 ^ 53"
proof -
  have p: "pow2 (ilog2 x - 52) = pow2 (ilog2 x) / 2 ^ 52"
    by (simp add: pow2_diff pow2_numeral)
  have q: "pow2 (ilog2 x + 1) = pow2 (ilog2 x) * 2"
    by (simp add: pow2_add pow2_numeral)
  from ilog2_bounds[OF assms] have "pow2 (ilog2 x) \<le> \<bar>x\<bar>" "\<bar>x\<bar> < pow2 (ilog2 x) * 2"
    by (simp_all add: q)
  then show "2 ^ 52 \<le> \<bar>x / pow2 (ilog2 x - 52)\<bar>" and "\<bar>x / pow2 (ilog2 x - 52)\<bar> < 2 ^ 53"
    by (simp_all add: p field_simps)
qed

lemma fl_error_ulp:
  assumes "x \<noteq> 0"
  shows "\<bar>fl x - x\<bar> \<le> pow2 (ilog2 x - 52) / 2"
proof -
  define e where "e = ilog2 x - 52"
  have "fl x - x = (of_int (round_half_even (x / pow2 e)) - x / pow2 e) * pow2 e"
    using assms by (simp add: fl_def e_def Let_def field_simps)
  then have "\<bar>fl x - x\<bar> = \<bar>of_int (round_half_even (x / pow2 e)) - x / pow2 e\<bar> * pow2 e"
    by (simp add: abs_mult)
  also have "\<dots> \<le> (1 / 2) * pow2 e"
    by (intro mult_right_mono round_half_even_bounds) simp
  finally show ?thesis by (simp add: e_def)
qed

lemma fl_error: "\<bar>fl x - x\<bar> \<le> \<bar>x\<bar> / 2 ^ 53"
proof (cases "x = 0")
  case True
  then show ?thesis by simp
next
  case False
  have "pow2 (ilog2 x - 52) / 2 = pow2 (ilog2 x) / 2 ^ 53"
    by (simp add: pow2_diff pow2_numeral)
  also have "\<dots> \<le> \<bar>x\<bar> / 2 ^ 53"
    using ilog2_bounds(1)[OF False] by (simp add: divide_right_mono)
  finally show ?thesis using fl_error_ulp[OF False] by linarith
qed

lemma fl_nonneg: "0 \<le> x \<Longrightarrow> 0 \<le> fl x"
  using round_half_even_mono[of 0 "x / pow2 (ilog2 x - 52)"]
  by (simp add: fl_def Let_def round_half_even_def)

lemma fl_pos_range:
  assumes "0 < x"
  shows "pow2 (ilog2 x) \<le> fl x" and "fl x \<le> pow2 (ilog2 x + 1)"
proof -
  define e where "e = ilog2 x - 52"
  define q where "q = x / pow2 e"
  have x0: "x \<noteq> 0" using assms by simp
  have qpos: "0 < q" using assms by (simp add: q_def)
  from fl_scaled_bounds[OF x0] qpos have q1: "of_int (2 ^ 52) \<le> q" and q2: "q \<le> of_int (2 ^ 53)"
    by (simp_all add: q_def e_def)
  from round_half_even_mono[OF q1] have r1: "2 ^ 52 \<le> round_half_even q"
    by (simp only: round_half_even_of_int)
  from round_half_even_mono[OF q2] have r2: "round_half_even q \<le> 2 ^ 53"
    by (simp only: round_half_even_of_int)
  have f: "fl x = of_int (round_half_even q) * pow2 e"
    using x0 by (simp add: fl_def Let_def q_def e_def)
  have "pow2 (ilog2 x) = 2 ^ 52 * pow2 e"
    by (simp add: e_def pow2_diff pow2_numeral)
  also have "\<dots> \<le> of_int (round_half_even q) * pow2 e"
    using r1 by (intro mult_right_mono) (simp_all add: of_int_le_iff[symmetric] del: of_int_le_iff)
  finally show "pow2 (ilog2 x) \<le> fl x" by (simp add: f)
  have "of_int (round_half_even q) * pow2 e \<le> 2 ^ 53 * pow2 e"
    using r2 by (intro mult_right_mono) (simp_all add: of_int_le_iff[symmetric] del: of_int_le_iff)
  also have "\<dots> = pow2 (ilog2 x + 1)"
    by (simp add: e_def pow2_diff pow2_add pow2_numeral)
  finally show "fl x \<le> pow2 (ilog2 x + 1)" by (simp add: f)
qed

lemma ilog2_mono_pos:
  assumes "0 < x" "x \<le> y" shows "ilog2 x \<le> ilog2 y"
proof (rule ccontr)
  assume "\<not> ilog2 x \<le> ilog2 y"
  then have "ilog2 y + 1 \<le> ilog2 x" by simp
  then have "pow2 (ilog2 y + 1) \<le> pow2 (ilog2 x)" by (rule pow2_mono)
  moreover have "pow2 (ilog2 x) \<le> x" using ilog2_bounds(1)[of x] assms by simp
  moreover have "y < pow2 (ilog2 y + 1)" using ilog2_bounds(2)[of y] assms by simp
  ultimately show False using assms by linarith
qed

lemma fl_mono_pos:
  assumes "0 < x" "x \<le> y" shows "fl x \<le> fl y"
proof (cases "ilog2 x = ilog2 y")
  case True
  have "x / pow2 (ilog2 y - 52) \<le> y / pow2 (ilog2 y - 52)"
    using assms by (simp add: divide_right_mono)
  from round_half_even_mono[OF this] show ?thesis
    using assms True by (simp add: fl_def Let_def mult_right_mono)
next
  case False
  with ilog2_mono_pos[OF assms] have "ilog2 x + 1 \<le> ilog2 y" by simp
  then have "pow2 (ilog2 x + 1) \<le> pow2 (ilog2 y)" by (rule pow2_mono)
  moreover have "fl x \<le> pow2 (ilog2 x + 1)" using assms by (intro fl_pos_range) simp
  moreover have "pow2 (ilog2 y) \<le> fl y" using assms by (intro fl_pos_range) simp
  ultimately show ?thesis by linarith
qed

lemma fl_mono:
  assumes "x \<le> y" shows "fl x \<le> fl y"
proof -
  consider "0 < x" | "x \<le> 0" "0 \<le> y" | "y < 0" by linarith
  then show ?thesis
  proof cases
    case 1
    then show ?thesis using assms by (rule fl_mono_pos)
  next
    case 2
    have "fl x \<le> 0" using fl_nonneg[of "- x"] 2 by (simp add: fl_minus)
    moreover have "0 \<le> fl y" using 2 by (simp add: fl_nonneg)
    ultimately show ?thesis by simp
  next
    case 3
    then have "fl (- y) \<le> fl (- x)" using assms by (intro fl_mono_pos) simp_all
    then show ?thesis by (simp add: fl_minus)
  qed
qed

text \<open>Numbers with a 53 bit significand are fixed points of the rounding.\<close>

lemma fl_representable:
  assumes "\<bar>m\<bar> < 2 ^ 53"
  shows "fl (of_int m * pow2 k) = of_int m * pow2 k"
proof (cases "m = 0")
  case True
  then show ?thesis by simp
next
  case False
  define x where "x = of_int m * pow2 k"
  define e where "e = ilog2 x - 52"
  have x0: "x \<noteq> 0" using False by (simp add: x_def)
  have "\<bar>x\<bar> = of_int \<bar>m\<bar> * pow2 k" by (simp add: x_def abs_mult)
  also have "\<dots> < of_int (2 ^ 53) * pow2 k"
    using assms by (intro mult_strict_right_mono) (simp_all del: of_int_power)
  also have "\<dots> = pow2 (k + 53)" by (simp add: pow2_add pow2_numeral)
  finally have "pow2 (ilog2 x) < pow2 (k + 53)" using ilog2_bounds(1)[OF x0] by linarith
  then have "ilog2 x < k + 53"
    by (metis pow2_mono not_le)
  then have ek: "e \<le> k" by (simp add: e_def)
  have "x / pow2 e = of_int m * pow2 (k - e)" by (simp add: x_def pow2_diff)
  also have "\<dots> = of_int (m * 2 ^ nat (k - e))" using ek by (simp add: pow2_def)
  finally have q: "x / pow2 e = of_int (m * 2 ^ nat (k - e))" .
  have "fl x = of_int (round_half_even (x / pow2 e)) * pow2 e"
    using x0 by (simp add: fl_def Let_def e_def)
  also have "\<dots> = (x / pow2 e) * pow2 e" unfolding q by (simp only: round_half_even_of_int)
  also have "\<dots> = x" by simp
  finally show ?thesis by (simp add: x_def)
qed

lemma fl_of_int: "\<bar>n\<bar> < 2 ^ 53 \<Longrightarrow> fl (of_int n) = of_int n"
  using fl_representable[of n 0] by simp

lemma float_of_int_exact: "\<bar>n\<bar> < 2 ^ 53 \<Longrightarrow> float_of_int n = of_int n"
  by (simp add: float_of_int_def fl_of_int)

section \<open>Drawing keeps the shape of the canvas\<close>

lemma ellipse_mode [simp]: "im_mode (ellipse bb c img) = im_mode img"
  by (simp add: ellipse_def)

lemma ellipse_size [simp]: "im_size (ellipse bb c img) = im_size img"
  by (simp add: ellipse_def)

lemma ellipse_rows [simp]: "length (im_data (ellipse bb c img)) = length (im_data img)"
  by (simp add: ellipse_def)

lemma ellipse_cols:
  "list_all (\<lambda>row. length row = n) (im_data img) \<Longrightarrow>
   list_all (\<lambda>row. length row = n) (im_data (ellipse bb c img))"
  by (auto simp: ellipse_def list_all_iff in_set_enumerate_eq)

lemma well_formed_ellipse: "well_formed sz img \<Longrightarrow> well_formed sz (ellipse bb c img)"
  by (simp add: well_formed_def ellipse_cols)

lemma fold_invariant:
  "P a \<Longrightarrow> (\<And>x b. P b \<Longrightarrow> P (f x b)) \<Longrightarrow> P (fold f xs a)"
  by (induction xs arbitrary: a) simp_all

lemma well_formed_background:
  "well_formed sz img \<Longrightarrow> well_formed sz (background center r ls img)"
  by (induction ls arbitrary: img) (simp_all add: Let_def well_formed_ellipse)

lemma well_formed_draw_samples:
  "well_formed sz img \<Longrightarrow> well_formed sz (draw_samples lw pts img)"
  unfolding draw_samples_def by (rule fold_invariant) (simp_all add: well_formed_ellipse)

lemma well_formed_draw_segment:
  "well_formed sz img \<Longrightarrow> well_formed sz (draw_segment lw pts i img)"
  unfolding draw_segment_def Let_def by (rule fold_invariant) (simp_all add: well_formed_ellipse)

lemma well_formed_draw_segments:
  "well_formed sz img \<Longrightarrow> well_formed sz (draw_segments lw pts img)"
  unfolding draw_segments_def by (rule fold_invariant) (simp_all add: well_formed_draw_segment)


lemma well_formed_paint: "well_formed sz img \<Longrightarrow> well_formed sz (paint lm sz' img)"
  by (simp add: paint_def Let_def draw_elegant_curve_def well_formed_draw_segments
      well_formed_draw_samples well_formed_background)

lemma well_formed_new:
  "Image_new RGB (sz, sz) c = Inr img \<Longrightarrow> well_formed sz img"
  by (auto simp: Image_new_def well_formed_def list_all_iff split: if_splits)

lemma render_cases:
  "render lm sz = (if sz < 0 then Inl ValueError
     else Inr (paint lm sz \<lparr>im_mode = RGB, im_size = (sz, sz),
                  im_data = replicate (nat sz) (replicate (nat sz) (99, 102, 241))\<rparr>))"
  by (simp add: render_def Image_new_def)

lemma well_formed_render: "render lm sz = Inr img \<Longrightarrow> well_formed sz img"
  by (auto simp: render_def split: sum.splits dest!: well_formed_new intro: well_formed_paint)

lemma generate_icon_Inr:
  assumes "generate_icon lm output_dir sz w = (w', Inr p)"
  obtains img where "render lm sz = Inr img" "p = output_dir @ [icon_name sz]"
    "fs w' p = Some (File (Png img))"
  using assms
  by (auto simp: generate_icon_def Let_def save_def print_def
      split: sum.splits option.splits node.splits if_splits)

section \<open>Runs of generate_icon on the example checkout\<close>

lemma icon_name_1024: "icon_name 1024 = ''AppIcon-1024x1024.png''"
  by (simp add: icon_name_def show_int_def show_nat.simps digit_char_def)

lemma makedirs_fresh:
  "makedirs [''repo'', ''assets'', ''icon_output''] fresh_world =
     Inr (fresh_world\<lparr>fs := (fs fresh_world)([''repo'', ''assets'', ''icon_output''] \<mapsto> Dir)\<rparr>)"
  by (simp add: makedirs.simps[of "[''repo'', ''assets'', ''icon_output'']"]
      makedirs.simps[of "[''repo'', ''assets'']"] lookup_def fresh_world_def script_path_def)

lemma generate_icon_fresh:
  "snd (generate_icon lm [''repo'', ''assets'', ''icon_output''] 1024 fresh_world) =
     Inr [''repo'', ''assets'', ''icon_output'', ''AppIcon-1024x1024.png'']"
  by (simp add: generate_icon_def makedirs_fresh render_cases Let_def icon_name_1024)
    (simp add: save_def print_def lookup_def fresh_world_def script_path_def)

section \<open>Paths and the file system\<close>








lemma makedirs_console: "makedirs p w = Inr w' \<Longrightarrow> console w' = console w"
proof (induction p w arbitrary: w' rule: makedirs.induct)
  case (1 p w)
  show ?case
  proof (cases "lookup w p")
    case None
    with "1.prems"(1) obtain w1 where m: "makedirs (butlast p) w = Inr w1"
      and w': "w' = w1\<lparr>fs := (fs w1)(p \<mapsto> Dir)\<rparr>"
      by (subst (asm) makedirs.simps) (auto split: sum.splits)
    from "1.IH"[OF None m] show ?thesis by (simp add: w')
  next
    case (Some n)
    with "1.prems"(1) show ?thesis
      by (subst (asm) makedirs.simps) (auto split: node.splits)
  qed
qed


lemma import_pil_fs: "import_pil w = (w0, b) \<Longrightarrow> lookup w0 q = lookup w q"
  by (auto simp: import_pil_def Let_def print_def lookup_def split: if_splits)





lemmas fl_eval = fl_def ilog2_def round_half_even_def pow2_def compute_bitlen Let_def

lemma lit_0_6: "fl (6 / 10) = 5404319552844595 / 2 ^ 53" "fl (3 / 5) = 5404319552844595 / 2 ^ 53"
  by (simp_all add: fl_eval)

lemma lit_0_8: "fl (8 / 10) = 3602879701896397 / 2 ^ 52" "fl (4 / 5) = 3602879701896397 / 2 ^ 52"
  by (simp_all add: fl_eval)

lemma fl_upper:
  assumes "0 \<le> x" shows "fl x \<le> x * (1 + 1 / 2 ^ 53)"
proof -
  have "\<bar>fl x - x\<bar> \<le> \<bar>x\<bar> / 2 ^ 53" by (rule fl_error)
  moreover have "x * (1 + 1 / 2 ^ 53) = x + \<bar>x\<bar> / 2 ^ 53"
    using assms by (simp add: algebra_simps)
  ultimately show ?thesis by linarith
qed

lemma fl_lower:
  assumes "0 \<le> x" shows "x * (1 - 1 / 2 ^ 53) \<le> fl x"
proof -
  have "\<bar>fl x - x\<bar> \<le> \<bar>x\<bar> / 2 ^ 53" by (rule fl_error)
  moreover have "x * (1 - 1 / 2 ^ 53) = x - \<bar>x\<bar> / 2 ^ 53"
    using assms by (simp add: algebra_simps)
  ultimately show ?thesis by linarith
qed

lemma fl_pow2 [simp]: "fl (pow2 k) = pow2 k"
  using fl_representable[of 1 k] by simp

lemma fl_ge_int: "\<bar>n\<bar> < 2 ^ 53 \<Longrightarrow> of_int n \<le> x \<Longrightarrow> of_int n \<le> fl x"
  using fl_mono[of "of_int n" x] by (simp add: fl_of_int)

lemma fl_le_int: "\<bar>n\<bar> < 2 ^ 53 \<Longrightarrow> x \<le> of_int n \<Longrightarrow> fl x \<le> of_int n"
  using fl_mono[of x "of_int n"] by (simp add: fl_of_int)

lemma py_int_nonneg: "0 \<le> x \<Longrightarrow> py_int x = \<lfloor>x\<rfloor>"
  by (simp add: py_int_def)

lemma line_width_ge_1:
  assumes "64 \<le> sz" shows "1 \<le> line_width_of sz"
proof -
  have "of_int 64 \<le> float_of_int sz"
    unfolding float_of_int_def using assms by (intro fl_ge_int) simp_all
  then have "pow2 (- 4) \<le> float_of_int sz / 1024" by (simp add: pow2_numeral)
  then have "pow2 (- 4) \<le> fdiv (float_of_int sz) 1024"
    unfolding fdiv_def using fl_mono[of "pow2 (- 4)"] by simp
  then have "of_int 1 \<le> 16 * fdiv (float_of_int sz) 1024" by (simp add: pow2_numeral)
  then have "of_int 1 \<le> fmul 16 (fdiv (float_of_int sz) 1024)"
    unfolding fmul_def by (intro fl_ge_int) simp_all
  then show ?thesis by (simp add: line_width_of_def py_int_def le_floor_iff)
qed

lemma taper_less:
  assumes "1 \<le> lw" "0 \<le> c" "c \<le> 9 / 10"
  shows "py_int (fmul (float_of_int lw) c) < lw"
proof -
  let ?e = "1 + 1 / (2::real) ^ 53"
  have lw0: "0 \<le> real_of_int lw" using assms by simp
  have 1: "float_of_int lw \<le> of_int lw * ?e"
    unfolding float_of_int_def using lw0 by (rule fl_upper)
  have f0: "0 \<le> float_of_int lw" unfolding float_of_int_def using lw0 by (rule fl_nonneg)
  have "float_of_int lw * c \<le> (of_int lw * ?e) * (9 / 10)"
    using 1 f0 assms by (intro mult_mono) simp_all
  moreover have p0: "0 \<le> float_of_int lw * c" using f0 assms by simp
  ultimately have "fmul (float_of_int lw) c \<le> (of_int lw * ?e) * (9 / 10) * ?e"
    unfolding fmul_def using fl_upper[OF p0]
    by (meson mult_right_mono order_trans add_nonneg_nonneg zero_le_one zero_le_divide_1_iff
        zero_le_power zero_le_numeral)
  also have "\<dots> = of_int lw * (?e * (9 / 10) * ?e)" by simp
  also have "\<dots> < of_int lw * 1"
    using assms by (intro mult_strict_left_mono) simp_all
  finally have "fmul (float_of_int lw) c < of_int lw" by simp
  moreover have "0 \<le> fmul (float_of_int lw) c" unfolding fmul_def using p0 by (rule fl_nonneg)
  ultimately show ?thesis by (simp add: py_int_def floor_less_iff)
qed

lemma taper_mono:
  assumes "0 \<le> lw" "0 \<le> c" "c \<le> d"
  shows "py_int (fmul (float_of_int lw) c) \<le> py_int (fmul (float_of_int lw) d)"
proof -
  have f0: "0 \<le> float_of_int lw" unfolding float_of_int_def using assms by (intro fl_nonneg) simp
  then have "float_of_int lw * c \<le> float_of_int lw * d" using assms by (intro mult_left_mono)
  then have "fmul (float_of_int lw) c \<le> fmul (float_of_int lw) d"
    unfolding fmul_def by (rule fl_mono)
  moreover have "0 \<le> fmul (float_of_int lw) c"
    unfolding fmul_def using f0 assms by (intro fl_nonneg) simp
  ultimately show ?thesis by (simp add: py_int_def floor_mono)
qed

section \<open>The radii of the background layers\<close>

lemma max_radius_10: "max_radius_of 10 = 7"
  by (simp add: max_radius_of_def fmul_def float_of_int_def py_int_def fl_eval)

lemma fl_abs_error: "\<bar>x\<bar> \<le> b \<Longrightarrow> \<bar>fl x - x\<bar> \<le> b / 2 ^ 53"
  using fl_error[of x] by (smt (verit) divide_right_mono zero_le_power zero_le_numeral)

lemma layer_value_error:
  assumes M: "0 \<le> M" and i: "i < 30"
  shows "\<bar>fmul (float_of_int M) (fsub 1 (int_truediv (int i) (int num_layers)))
          - of_int M * (1 - real i / 30)\<bar> \<le> 8 * of_int M / 2 ^ 53"
proof -
  define u :: real where "u = 1 / 2 ^ 53"
  define t where "t = real i / 30"
  define y where "y = 1 - t"
  define q where "q = int_truediv (int i) (int num_layers)"
  define d where "d = fsub 1 q"
  define F where "F = float_of_int M"
  define m where "m = real_of_int M"
  have u: "0 < u" "u \<le> 1 / 8" by (simp_all add: u_def)
  have m0: "0 \<le> m" using M by (simp add: m_def)
  have t: "0 \<le> t" "t \<le> 1" using i by (simp_all add: t_def)
  have y: "0 \<le> y" "y \<le> 1" using t by (simp_all add: y_def)
  have q: "\<bar>q - t\<bar> \<le> u"
    unfolding q_def int_truediv_def num_layers_def u_def
    using fl_abs_error[of "real i / 30" 1] t by (simp add: t_def)
  then have q1: "\<bar>1 - q\<bar> \<le> 2" using t u by linarith
  have "\<bar>d - (1 - q)\<bar> \<le> 2 * u"
    unfolding d_def fsub_def u_def using fl_abs_error[OF q1] by simp
  with q have d: "\<bar>d - y\<bar> \<le> 3 * u" unfolding y_def by linarith
  then have d2: "\<bar>d\<bar> \<le> 2" using y u by linarith
  have F: "\<bar>F - m\<bar> \<le> m * u"
    unfolding F_def float_of_int_def m_def u_def using fl_error[of "real_of_int M"] M by simp
  then have F2: "\<bar>F\<bar> \<le> m * (1 + u)" using m0 by (simp add: algebra_simps)
  have "F * d - m * y = F * (d - y) + (F - m) * y" by (simp add: algebra_simps)
  then have "\<bar>F * d - m * y\<bar> \<le> \<bar>F\<bar> * \<bar>d - y\<bar> + \<bar>F - m\<bar> * \<bar>y\<bar>"
    by (metis abs_mult abs_triangle_ineq)
  also have "\<dots> \<le> (m * (1 + u)) * (3 * u) + (m * u) * 1"
    using F F2 d y m0 u by (intro add_mono mult_mono) simp_all
  also have "\<dots> = m * u * (4 + 3 * u)" by (simp add: algebra_simps)
  also have "\<dots> \<le> m * u * 5" using m0 u by (intro mult_left_mono) simp_all
  finally have p: "\<bar>F * d - m * y\<bar> \<le> 5 * m * u" by simp
  have "\<bar>F * d\<bar> \<le> (m * (1 + u)) * 2"
    unfolding abs_mult using F2 d2 m0 u by (intro mult_mono) simp_all
  also have "\<dots> = 2 * m + m * (2 * u)" by (simp add: algebra_simps)
  also have "\<dots> \<le> 2 * m + m * 1" using m0 u by (intro add_left_mono mult_left_mono) simp_all
  finally have "\<bar>F * d\<bar> \<le> 3 * m" by simp
  then have "\<bar>fl (F * d) - F * d\<bar> \<le> 3 * m / 2 ^ 53" by (rule fl_abs_error)
  then have "\<bar>fl (F * d) - F * d\<bar> \<le> 3 * m * u" by (simp add: u_def)
  with p have "\<bar>fl (F * d) - m * y\<bar> \<le> 8 * m * u" by linarith
  then show ?thesis
    by (simp add: fmul_def F_def d_def q_def m_def y_def t_def u_def)
qed

lemma lit_0_72: "fl (72 / 100) = 3242591731706757 / 2 ^ 52" "fl (18 / 25) = 3242591731706757 / 2 ^ 52"
  by (simp_all add: fl_eval)

lemma layer_value_nonneg:
  assumes M: "0 \<le> M" and i: "i < 30"
  shows "0 \<le> fmul (float_of_int M) (fsub 1 (int_truediv (int i) (int num_layers)))"
proof -
  have "real i / 30 \<le> of_int 1" using i by simp
  then have "int_truediv (int i) (int num_layers) \<le> of_int 1"
    unfolding int_truediv_def num_layers_def by (intro fl_le_int) simp_all
  then have "0 \<le> fsub 1 (int_truediv (int i) (int num_layers))"
    unfolding fsub_def by (intro fl_nonneg) simp
  moreover have "0 \<le> float_of_int M" unfolding float_of_int_def using M by (intro fl_nonneg) simp
  ultimately show ?thesis unfolding fmul_def by (intro fl_nonneg) simp
qed

lemma layer_radius_bounds:
  assumes M: "0 \<le> M" and i: "i < 30"
  shows "of_int (layer_radius M i) \<le> of_int M * (1 - real i / 30) + 8 * of_int M / 2 ^ 53"
    and "of_int M * (1 - real i / 30) - 8 * of_int M / 2 ^ 53 - 1 < of_int (layer_radius M i)"
proof -
  let ?v = "fmul (float_of_int M) (fsub 1 (int_truediv (int i) (int num_layers)))"
  have r: "layer_radius M i = \<lfloor>?v\<rfloor>"
    using layer_value_nonneg[OF assms] by (simp add: layer_radius_def py_int_def)
  have e: "\<bar>?v - of_int M * (1 - real i / 30)\<bar> \<le> 8 * of_int M / 2 ^ 53"
    using assms by (rule layer_value_error)
  have "of_int \<lfloor>?v\<rfloor> \<le> ?v" "?v - 1 < of_int \<lfloor>?v\<rfloor>" by linarith+
  with e show "of_int (layer_radius M i) \<le> of_int M * (1 - real i / 30) + 8 * of_int M / 2 ^ 53"
    and "of_int M * (1 - real i / 30) - 8 * of_int M / 2 ^ 53 - 1 < of_int (layer_radius M i)"
    unfolding r by linarith+
qed

lemma layer_radius_decreasing:
  assumes M: "31 \<le> M" and ij: "i < j" "j < 30"
  shows "layer_radius M j < layer_radius M i" and "0 < layer_radius M j"
proof -
  define m where "m = real_of_int M"
  define xi where "xi = m * (1 - real i / 30)"
  define xj where "xj = m * (1 - real j / 30)"
  define e where "e = 8 * m / 2 ^ 53"
  have m: "31 \<le> m" using M by (simp add: m_def)
  have M0: "0 \<le> M" using M by simp
  have i: "i < 30" using ij by simp
  have "m * 1 \<le> m * (real j - real i)" using m ij by (intro mult_left_mono) simp_all
  then have d: "m / 30 \<le> xi - xj"
    by (simp add: algebra_simps xi_def xj_def)
  have "m * 1 \<le> m * (30 - real j)" using m ij by (intro mult_left_mono) simp_all
  then have p: "m / 30 \<le> xj" by (simp add: algebra_simps xj_def)
  have e: "e \<le> m / 3000" by (simp add: e_def) (use m in linarith)
  have bj: "real_of_int (layer_radius M j) \<le> xj + e" "xj - e - 1 < real_of_int (layer_radius M j)"
    using layer_radius_bounds[OF M0 ij(2)] by (simp_all add: m_def xj_def e_def)
  have bi: "xi - e - 1 < real_of_int (layer_radius M i)"
    using layer_radius_bounds(2)[OF M0 i] by (simp_all add: m_def xi_def e_def)
  have "real_of_int (layer_radius M j) < real_of_int (layer_radius M i)"
    using bj(1) bi d m e by linarith
  then show "layer_radius M j < layer_radius M i" by simp
  have "0 < real_of_int (layer_radius M j)" using bj(2) p m e by linarith
  then show "0 < layer_radius M j" by simp
qed

lemma max_radius_ge_31:
  assumes "44 \<le> sz" shows "31 \<le> max_radius_of sz"
proof -
  have f: "of_int 44 \<le> float_of_int sz"
    unfolding float_of_int_def using assms by (intro fl_ge_int) simp_all
  have "real_of_int 31 \<le> 44 * fl (72 / 100)" by (simp add: lit_0_72)
  also have "\<dots> \<le> float_of_int sz * fl (72 / 100)"
    using f by (intro mult_right_mono) (simp_all add: lit_0_72)
  finally have "of_int 31 \<le> fmul (float_of_int sz) (fl (72 / 100))"
    unfolding fmul_def by (intro fl_ge_int) simp_all
  then show ?thesis by (simp add: max_radius_of_def py_int_def le_floor_iff)
qed

lemma background_all_drawn:
  "list_all (\<lambda>i. 0 < layer_radius M i) ls \<Longrightarrow>
   background c M ls img = fold (\<lambda>i. ellipse (layer_box c M i) (layer_color i)) ls img"
  by (induction ls arbitrary: img) (simp_all add: Let_def layer_box_def)

lemma in_circle:
  assumes "0 < r"
  shows "in_ellipse (c - r, c - r, c + r, c + r) (px, py) \<longleftrightarrow> (px - c)\<^sup>2 + (py - c)\<^sup>2 \<le> r\<^sup>2"
proof -
  have a: "(2 * px - (c - r) - (c + r)) = 2 * (px - c)" "(2 * py - (c - r) - (c + r)) = 2 * (py - c)"
    "c + r - (c - r) = 2 * r" by simp_all
  have b: "(2 * (px - c))\<^sup>2 * (2 * r)\<^sup>2 + (2 * (py - c))\<^sup>2 * (2 * r)\<^sup>2 \<le> (2 * r)\<^sup>2 * (2 * r)\<^sup>2
        \<longleftrightarrow> (px - c)\<^sup>2 + (py - c)\<^sup>2 \<le> r\<^sup>2"
  proof -
    have "(2 * (px - c))\<^sup>2 * (2 * r)\<^sup>2 + (2 * (py - c))\<^sup>2 * (2 * r)\<^sup>2
        = (16 * r\<^sup>2) * ((px - c)\<^sup>2 + (py - c)\<^sup>2)" by (simp add: power2_eq_square algebra_simps)
    moreover have "(2 * r)\<^sup>2 * (2 * r)\<^sup>2 = (16 * r\<^sup>2) * r\<^sup>2" by (simp add: power2_eq_square)
    moreover have "0 < 16 * r\<^sup>2" using assms by simp
    ultimately show ?thesis by (simp only: mult_le_cancel_left_pos)
  qed
  have box: "(px - c)\<^sup>2 + (py - c)\<^sup>2 \<le> r\<^sup>2 \<Longrightarrow> c - r \<le> px \<and> px \<le> c + r \<and> c - r \<le> py \<and> py \<le> c + r"
  proof -
    assume h: "(px - c)\<^sup>2 + (py - c)\<^sup>2 \<le> r\<^sup>2"
    have "(px - c)\<^sup>2 \<le> r\<^sup>2" using h zero_le_power2[of "py - c"] by linarith
    then have x: "\<bar>px - c\<bar> \<le> r" using assms by (simp add: abs_le_square_iff[symmetric])
    have "(py - c)\<^sup>2 \<le> r\<^sup>2" using h zero_le_power2[of "px - c"] by linarith
    then have "\<bar>py - c\<bar> \<le> r" using assms by (simp add: abs_le_square_iff[symmetric])
    with x show ?thesis by linarith
  qed
  show ?thesis
    unfolding in_ellipse_def prod.case a using b box by blast
qed

section \<open>Segments between consecutive samples\<close>

lemma ilog2_unique:
  assumes "pow2 k \<le> \<bar>x\<bar>" "\<bar>x\<bar> < pow2 (k + 1)"
  shows "ilog2 x = k"
proof -
  have "0 < \<bar>x\<bar>" using assms(1) pow2_pos[of k] by linarith
  then have x0: "x \<noteq> 0" by simp
  note b = ilog2_bounds[OF x0]
  have "pow2 k < pow2 (ilog2 x + 1)" using assms(1) b(2) by linarith
  then have "k < ilog2 x + 1" by (metis pow2_mono not_le)
  moreover have "pow2 (ilog2 x) < pow2 (k + 1)" using assms(2) b(1) by linarith
  then have "ilog2 x < k + 1" by (metis pow2_mono not_le)
  ultimately show ?thesis by simp
qed

lemma ilog2_scale: "x \<noteq> 0 \<Longrightarrow> ilog2 (x * pow2 k) = ilog2 x + k"
proof (rule ilog2_unique)
  assume x0: "x \<noteq> 0"
  note b = ilog2_bounds[OF x0]
  show "pow2 (ilog2 x + k) \<le> \<bar>x * pow2 k\<bar>"
    using b(1) by (simp add: pow2_add abs_mult mult_right_mono)
  show "\<bar>x * pow2 k\<bar> < pow2 (ilog2 x + k + 1)"
    using b(2) by (simp add: pow2_add abs_mult mult_strict_right_mono pow2_numeral)
qed

lemma fl_scale: "fl (x * pow2 k) = fl x * pow2 k"
proof (cases "x = 0")
  case True
  then show ?thesis by simp
next
  case False
  have "x * pow2 k / pow2 (ilog2 x + k - 52) = x / pow2 (ilog2 x - 52)"
    by (simp add: pow2_diff pow2_add)
  then show ?thesis
    using False by (simp add: fl_def Let_def ilog2_scale pow2_diff pow2_add)
qed

lemma fl_fl [simp]: "fl (fl x) = fl x"
proof (cases "x = 0")
  case True
  then show ?thesis by simp
next
  case False
  define e where "e = ilog2 x - 52"
  define r where "r = round_half_even (x / pow2 e)"
  have f: "fl x = of_int r * pow2 e" using False by (simp add: fl_def Let_def e_def r_def)
  have q: "\<bar>x / pow2 e\<bar> < 2 ^ 53" using fl_scaled_bounds(2)[OF False] by (simp add: e_def)
  have i1: "real_of_int (2 ^ 53) = 2 ^ 53" and i2: "real_of_int (- (2 ^ 53)) = - (2 ^ 53)"
    by simp_all
  have "x / pow2 e \<le> of_int (2 ^ 53)" unfolding i1 using q by linarith
  from round_half_even_mono[OF this] have r1: "r \<le> 2 ^ 53"
    unfolding r_def by (simp only: round_half_even_of_int)
  have "of_int (- (2 ^ 53)) \<le> x / pow2 e" unfolding i2 using q by linarith
  from round_half_even_mono[OF this] have r2: "- (2 ^ 53) \<le> r"
    unfolding r_def by (simp only: round_half_even_of_int)
  from r1 r2 have "r \<le> 2 ^ 53" "- (2 ^ 53) \<le> r" .
  then consider "\<bar>r\<bar> < 2 ^ 53" | "r = 2 ^ 53" | "r = - (2 ^ 53)" by linarith
  then show ?thesis
  proof cases
    case 1
    then show ?thesis unfolding f by (rule fl_representable)
  next
    case 2
    have "fl x = pow2 (e + 53)" by (simp add: f 2 pow2_add pow2_numeral)
    then show ?thesis by simp
  next
    case 3
    have "fl x = - pow2 (e + 53)" by (simp add: f 3 pow2_add pow2_numeral)
    then show ?thesis by (simp add: fl_minus)
  qed
qed

lemma fl_div_4: "fl (fl x / 4) = fl x / 4"
  using fl_scale[of "fl x" "- 2"] by (simp add: pow2_numeral)

text \<open>The rounded square root of an integer never reaches the next integer above the root.\<close>

lemma fl_sqrt_less:
  assumes n: "0 \<le> n" and N: "0 < N" "N\<^sup>2 \<le> 2 ^ 52" and lt: "sqrt (of_int n) < of_int N"
  shows "fl (sqrt (of_int n)) < of_int N"
proof -
  define s where "s = sqrt (real_of_int n)"
  define R where "R = real_of_int N"
  have s0: "0 \<le> s" using n by (simp add: s_def)
  have R0: "0 < R" using N by (simp add: R_def)
  have "s\<^sup>2 = of_int n" using n by (simp add: s_def)
  moreover have "s\<^sup>2 < R\<^sup>2" using lt s0 unfolding s_def R_def by (intro power_strict_mono) simp_all
  ultimately have "real_of_int n < real_of_int (N\<^sup>2)" by (simp add: R_def)
  then have "n < N\<^sup>2" by (simp only: of_int_less_iff)
  then have "n \<le> N\<^sup>2 - 1" by simp
  then have "real_of_int n \<le> real_of_int (N\<^sup>2 - 1)" by (simp only: of_int_le_iff)
  then have s2: "s\<^sup>2 \<le> R\<^sup>2 - 1" using \<open>s\<^sup>2 = of_int n\<close> by (simp add: R_def)
  have R1: "1 \<le> R" using N by (simp add: R_def)
  have "(R - 1 / (2 * R))\<^sup>2 = R\<^sup>2 - 1 + (1 / (2 * R))\<^sup>2"
    using R0 by (simp add: power2_eq_square field_simps)
  moreover have "0 < (1 / (2 * R))\<^sup>2" using R0 by simp
  ultimately have "R\<^sup>2 - 1 < (R - 1 / (2 * R))\<^sup>2" by linarith
  with s2 have sq: "s\<^sup>2 < (R - 1 / (2 * R))\<^sup>2" by linarith
  have nn: "0 \<le> R - 1 / (2 * R)"
  proof -
    have "1 / (2 * R) \<le> 1 / 2" using R1 by (simp add: field_simps)
    then show ?thesis using R1 by linarith
  qed
  have s3: "s < R - 1 / (2 * R)" using sq nn by (rule power2_less_imp_less)
  have "real_of_int (N\<^sup>2) \<le> real_of_int (2 ^ 52)" using N(2) by (simp only: of_int_le_iff)
  then have "R\<^sup>2 \<le> 2 ^ 52" by (simp add: R_def)
  then have "R * R * 2 \<le> 2 ^ 53" by (simp add: power2_eq_square)
  then have Ru: "R / 2 ^ 53 \<le> 1 / (2 * R)" using R0 by (simp add: field_simps)
  have "0 < 1 / (2 * R)" using R0 by simp
  then have "s < R" using s3 by linarith
  then have "s \<le> R" by simp
  have "\<bar>fl s - s\<bar> \<le> \<bar>s\<bar> / 2 ^ 53" by (rule fl_error)
  then have "fl s - s \<le> s / 2 ^ 53" using s0 by linarith
  also have "\<dots> \<le> R / 2 ^ 53" using \<open>s \<le> R\<close> by (simp add: divide_right_mono)
  finally have "fl s \<le> s + 1 / (2 * R)" using Ru by linarith
  with s3 \<open>0 < 1 / (2 * R)\<close> have "fl s < R" by linarith
  then show ?thesis by (simp add: s_def R_def)
qed

lemma segment_steps_exact:
  assumes dx: "\<bar>x2 - x1\<bar> < 2 ^ 23" and dy: "\<bar>y2 - y1\<bar> < 2 ^ 23"
  shows "segment_steps (x1, y1) (x2, y2) =
           max \<lfloor>sqrt (of_int ((x2 - x1)\<^sup>2 + (y2 - y1)\<^sup>2)) / 4\<rfloor> 8"
proof -
  define n where "n = (x2 - x1)\<^sup>2 + (y2 - y1)\<^sup>2"
  define s where "s = sqrt (real_of_int n)"
  define K where "K = \<lfloor>s / 4\<rfloor>"
  have n0: "0 \<le> n" by (simp add: n_def)
  have "\<bar>x2 - x1\<bar>\<^sup>2 < (2 ^ 23)\<^sup>2" using dx by (intro power_strict_mono) simp_all
  moreover have "\<bar>y2 - y1\<bar>\<^sup>2 < (2 ^ 23)\<^sup>2" using dy by (intro power_strict_mono) simp_all
  ultimately have n1: "n < 140737488355328" by (simp add: n_def)
  have "\<bar>n\<bar> < 2 ^ 53" using n0 n1 by simp
  then have fn: "float_of_int n = of_int n" by (rule float_of_int_exact)
  have s0: "0 \<le> s" using n0 by (simp add: s_def)
  have "real_of_int n < real_of_int 140737488355328" using n1 by (simp only: of_int_less_iff)
  then have "real_of_int n < 16777216\<^sup>2" by simp
  then have "s < sqrt (16777216\<^sup>2)" unfolding s_def by (simp only: real_sqrt_less_iff)
  then have s1: "s < 16777216" by simp
  have K0: "0 \<le> K" using s0 by (simp add: K_def)
  have Kle: "real_of_int K \<le> s / 4" unfolding K_def by (rule of_int_floor_le)
  have Klt: "s / 4 < real_of_int K + 1" unfolding K_def by linarith
  have "real_of_int K < real_of_int 4194304" using Kle s1 by simp
  then have K2: "K < 4194304" by (simp only: of_int_less_iff)
  have "real_of_int (4 * K) \<le> s" using Kle by simp
  moreover have "\<bar>4 * K\<bar> < 2 ^ 53" using K0 K2 by simp
  ultimately have lo: "real_of_int (4 * K) \<le> fl s" by (intro fl_ge_int)
  have "sqrt (real_of_int n) < real_of_int (4 * (K + 1))" using Klt by (simp add: s_def)
  moreover have "(4 * (K + 1))\<^sup>2 \<le> 2 ^ 52"
  proof -
    have "(4 * (K + 1))\<^sup>2 \<le> 16777216\<^sup>2" using K0 K2 by (intro power_mono) simp_all
    then show ?thesis by simp
  qed
  moreover have "0 < 4 * (K + 1)" using K0 by simp
  ultimately have hi: "fl s < real_of_int (4 * (K + 1))"
    unfolding s_def using n0 by (intro fl_sqrt_less)
  have w0: "0 \<le> fl s" using s0 by (rule fl_nonneg)
  have "real_of_int K \<le> fl s / 4" using lo by simp
  moreover have "fl s / 4 < real_of_int K + 1" using hi by simp
  ultimately have "\<lfloor>fl s / 4\<rfloor> = K" by (intro floor_unique)
  then have "py_int (fdiv (math_sqrt (float_of_int n)) 4) = K"
    using w0 by (simp add: fn math_sqrt_def fdiv_def fl_div_4 py_int_def s_def)
  then show ?thesis by (simp add: segment_steps_def n_def K_def s_def)
qed

lemma point_idx_range:
  assumes "i < 2 ^ 52" "0 < steps" "int j \<le> steps"
  shows "real i \<le> fadd (float_of_int (int i)) (int_truediv (int j) steps)"
    and "fadd (float_of_int (int i)) (int_truediv (int j) steps) \<le> real i + 1"
proof -
  let ?t = "int_truediv (int j) steps"
  have "\<bar>int i\<bar> < 2 ^ 53" using assms(1) by simp
  then have fi: "float_of_int (int i) = real i" by (simp add: float_of_int_exact)
  have "real_of_int 0 \<le> real_of_int (int j) / real_of_int steps" using assms by simp
  then have t0: "0 \<le> ?t" unfolding int_truediv_def using fl_ge_int[of 0] by simp
  have "real_of_int (int j) / real_of_int steps \<le> real_of_int 1" using assms by simp
  then have t1: "?t \<le> 1" unfolding int_truediv_def using fl_le_int[of 1] by simp
  have a: "\<bar>int i\<bar> < 2 ^ 53" "\<bar>int i + 1\<bar> < 2 ^ 53" using assms(1) by simp_all
  have "real_of_int (int i) \<le> real i + ?t" using t0 by simp
  then show "real i \<le> fadd (float_of_int (int i)) ?t"
    unfolding fadd_def fi using fl_ge_int[OF a(1)] by simp
  have "real i + ?t \<le> real_of_int (int i + 1)" using t1 by simp
  then show "fadd (float_of_int (int i)) ?t \<le> real i + 1"
    unfolding fadd_def fi using fl_le_int[OF a(2)] by simp
qed

lemma current_width_between:
  assumes "real i \<le> x" "x \<le> real i + 1"
  shows "current_width lw n x = current_width lw n (real i) \<or>
         current_width lw n x = current_width lw n (real (i + 1))"
proof -
  consider "x = real i" | "x = real (i + 1)" | "real i < x" "x < real i + 1"
    using assms by fastforce
  then show ?thesis
  proof cases
    case 3
    have c: "x < real_of_int k \<longleftrightarrow> int i < k" for k
    proof
      assume "x < real_of_int k"
      with 3 have "real_of_int (int i) < real_of_int k" by simp
      then show "int i < k" by (simp only: of_int_less_iff)
    next
      assume "int i < k"
      then have "int i + 1 \<le> k" by simp
      then have "real_of_int (int i + 1) \<le> real_of_int k" by (simp only: of_int_le_iff)
      with 3 show "x < real_of_int k" by simp
    qed
    have d: "real_of_int k < x \<longleftrightarrow> k < int i + 1" for k
    proof
      assume "real_of_int k < x"
      with 3 have "real_of_int k < real_of_int (int i + 1)" by simp
      then show "k < int i + 1" by (simp only: of_int_less_iff)
    next
      assume "k < int i + 1"
      then have "k \<le> int i" by simp
      then have "real_of_int k \<le> real_of_int (int i)" by (simp only: of_int_le_iff)
      with 3 show "real_of_int k < x" by simp
    qed
    have e: "real j < real_of_int k \<longleftrightarrow> int j < k" "real_of_int k < real j \<longleftrightarrow> k < int j" for j k
      by linarith+
    show ?thesis
      using c[of 10] c[of 20] d[of "n - 10"] d[of "n - 20"]
        e[of i 10] e[of i 20] e[of "i + 1" 10] e[of "i + 1" 20]
        e(2)[of "n - 10" i] e(2)[of "n - 20" i] e(2)[of "n - 10" "i + 1"] e(2)[of "n - 20" "i + 1"]
      unfolding current_width_def by (simp only: of_int_numeral) (auto simp: )
  qed auto
qed

lemma segment_steps_ge_8: "8 \<le> segment_steps p1 p2"
  by (cases p1; cases p2) (simp add: segment_steps_def)

section \<open>Where the curve is drawn\<close>

lemma fl_abs_le_int:
  assumes "\<bar>x\<bar> \<le> of_int n" "\<bar>n\<bar> < 2 ^ 53"
  shows "\<bar>fl x\<bar> \<le> of_int n"
proof -
  have "fl x \<le> of_int n" using assms by (intro fl_le_int) linarith+
  moreover have "of_int (- n) \<le> fl x"
  proof (rule fl_ge_int)
    show "\<bar>- n\<bar> < 2 ^ 53" using assms(2) by simp
    show "real_of_int (- n) \<le> x" using assms(1) by simp
  qed
  ultimately show ?thesis by simp
qed

lemma fl_range_int:
  assumes "of_int a \<le> x" "x \<le> of_int b" "\<bar>a\<bar> < 2 ^ 53" "\<bar>b\<bar> < 2 ^ 53"
  shows "of_int a \<le> fl x" "fl x \<le> of_int b"
  using assms fl_ge_int[of a x] fl_le_int[of b x] by simp_all

lemma py_int_range:
  assumes "of_int a \<le> x" "x \<le> of_int b"
  shows "a \<le> py_int x" "py_int x \<le> b"
  using assms by (auto simp: py_int_def le_floor_iff floor_le_iff ceiling_le_iff le_ceiling_iff)

lemma fl_1 [simp]: "fl 1 = 1"
  using fl_of_int[of 1] by simp

lemma scale_1024: "fdiv (float_of_int 1024) 1024 = 1"
  by (simp add: fdiv_def float_of_int_exact)

lemma line_width_1024: "line_width_of 1024 = 16"
proof -
  have "fl 16 = 16" using fl_of_int[of 16] by simp
  then show ?thesis by (simp add: line_width_of_def scale_1024 fmul_def py_int_def)
qed

lemma truediv_unit:
  assumes "0 \<le> a" "a \<le> b" "0 < b"
  shows "0 \<le> int_truediv a b" "int_truediv a b \<le> 1"
proof -
  have "real_of_int 0 \<le> real_of_int a / real_of_int b" using assms by simp
  then show "0 \<le> int_truediv a b" unfolding int_truediv_def using fl_ge_int[of 0] by simp
  have "real_of_int a / real_of_int b \<le> real_of_int 1" using assms by simp
  then show "int_truediv a b \<le> 1" unfolding int_truediv_def using fl_le_int[of 1] by simp
qed

lemma lit_0_3: "fl (3 / 10) = 5404319552844595 / 2 ^ 54"
  by (simp add: fl_eval)

lemma lit_0_2: "fl (2 / 10) = 3602879701896397 / 2 ^ 54" "fl (1 / 5) = 3602879701896397 / 2 ^ 54"
  by (simp_all add: fl_eval)

lemma amplitude_y: "fmul 80 (fl (6 / 10)) = 48"
  by (simp add: fmul_def lit_0_6 fl_eval)

lemma damping_range:
  assumes "0 \<le> t" "t \<le> 1" "0 \<le> c" "c \<le> 1"
  shows "0 \<le> fsub 1 (fmul t c)" "fsub 1 (fmul t c) \<le> 1"
proof -
  have "real_of_int 0 \<le> t * c" "t * c \<le> real_of_int 1"
    using assms by (simp_all add: mult_le_one)
  then have "0 \<le> fmul t c" "fmul t c \<le> 1"
    unfolding fmul_def using fl_ge_int[of 0 "t * c"] fl_le_int[of 1 "t * c"] by simp_all
  then have "real_of_int 0 \<le> 1 - fmul t c" "1 - fmul t c \<le> real_of_int 1" by simp_all
  then show "0 \<le> fsub 1 (fmul t c)" "fsub 1 (fmul t c) \<le> 1"
    unfolding fsub_def using fl_ge_int[of 0 "1 - fmul t c"] fl_le_int[of 1 "1 - fmul t c"]
    by simp_all
qed

lemma offset_range:
  assumes "\<bar>s\<bar> \<le> 1" "0 \<le> d" "d \<le> 1" "0 \<le> A" "A < 2 ^ 53"
  shows "\<bar>fmul (fmul (of_int A) s) d\<bar> \<le> of_int A"
proof -
  have "\<bar>of_int A * s\<bar> \<le> of_int A * 1"
    unfolding abs_mult using assms by (intro mult_mono) simp_all
  then have 1: "\<bar>fmul (of_int A) s\<bar> \<le> of_int A"
    unfolding fmul_def using assms by (intro fl_abs_le_int) simp_all
  have "\<bar>fmul (of_int A) s * d\<bar> \<le> of_int A * 1"
    unfolding abs_mult using 1 assms by (intro mult_mono) simp_all
  then show ?thesis
    unfolding fmul_def[of "fmul (of_int A) s"] using assms by (intro fl_abs_le_int) simp_all
qed

lemma curve_point_eq:
  "curve_point lm scale i =
     (py_int (fmul (curve_x lm i) scale), py_int (fmul (curve_y lm i) scale))"
  by (simp add: curve_point_def curve_x_def curve_y_def Let_def)

lemma curve_value_range:
  assumes lm: "libm_bounded lm" and i: "i < 150"
  shows "120 \<le> curve_x lm i" "curve_x lm i \<le> 880" "202 \<le> curve_y lm i" "curve_y lm i \<le> 798"
proof -
  define t where "t = int_truediv (int i) (int num_points)"
  define base_x where "base_x = fadd 200 (fmul (float_of_int (800 - 200)) t)"
  define base_y where "base_y = fadd 750 (fmul (float_of_int (250 - 750)) t)"
  define offset_x where "offset_x = fmul (fmul 80 (m_sin lm (fmul (fmul t math_pi) (fl (12 / 10)))))
                          (fsub 1 (fmul t (fl (3 / 10))))"
  define offset_y where "offset_y = fmul (fmul (fmul 80 (fl (6 / 10)))
                                (m_cos lm (fmul (fmul (fmul t math_pi) (fl (12 / 10)))
                                                (fl (11 / 10)))))
                          (fsub 1 (fmul t (fl (2 / 10))))"
  have p: "curve_x lm i = fadd base_x offset_x" "curve_y lm i = fadd base_y offset_y"
    unfolding curve_x_def curve_y_def Let_def t_def base_x_def base_y_def offset_x_def offset_y_def
    by (rule refl)+
  have t: "0 \<le> t" "t \<le> 1"
    unfolding t_def using i by (intro truediv_unit; simp add: num_points_def)+
  have "real_of_int 0 \<le> 600 * t" "600 * t \<le> real_of_int 600" using t by simp_all
  then have "0 \<le> fmul (float_of_int (800 - 200)) t" "fmul (float_of_int (800 - 200)) t \<le> 600"
    unfolding fmul_def using fl_ge_int[of 0 "600 * t"] fl_le_int[of 600 "600 * t"]
    by (simp_all add: float_of_int_exact)
  then have "real_of_int 200 \<le> 200 + fmul (float_of_int (800 - 200)) t"
    "200 + fmul (float_of_int (800 - 200)) t \<le> real_of_int 800" by simp_all
  then have bx: "200 \<le> base_x" "base_x \<le> 800"
    unfolding base_x_def fadd_def
    using fl_ge_int[of 200 "200 + fmul (float_of_int (800 - 200)) t"]
      fl_le_int[of 800 "200 + fmul (float_of_int (800 - 200)) t"] by simp_all
  have "real_of_int (- 500) \<le> - 500 * t" "- 500 * t \<le> real_of_int 0" using t by simp_all
  then have "- 500 \<le> fmul (float_of_int (250 - 750)) t" "fmul (float_of_int (250 - 750)) t \<le> 0"
    unfolding fmul_def using fl_ge_int[of "- 500" "- 500 * t"] fl_le_int[of 0 "- 500 * t"]
    by (simp_all add: float_of_int_exact)
  then have "real_of_int 250 \<le> 750 + fmul (float_of_int (250 - 750)) t"
    "750 + fmul (float_of_int (250 - 750)) t \<le> real_of_int 750" by simp_all
  then have byr: "250 \<le> base_y" "base_y \<le> 750"
    unfolding base_y_def fadd_def
    using fl_ge_int[of 250 "750 + fmul (float_of_int (250 - 750)) t"]
      fl_le_int[of 750 "750 + fmul (float_of_int (250 - 750)) t"] by simp_all
  have s: "\<bar>m_sin lm x\<bar> \<le> 1" and c: "\<bar>m_cos lm x\<bar> \<le> 1" for x
    using lm by (simp_all add: libm_bounded_def)
  have ox: "\<bar>offset_x\<bar> \<le> 80"
    unfolding offset_x_def
    using offset_range[OF s damping_range[OF t, of "fl (3 / 10)"], of 80]
    by (simp add: lit_0_3)
  have oy: "\<bar>offset_y\<bar> \<le> 48"
    unfolding offset_y_def amplitude_y
    using offset_range[OF c damping_range[OF t, of "fl (2 / 10)"], of 48]
    by (simp add: lit_0_2)
  have "real_of_int 120 \<le> base_x + offset_x" "base_x + offset_x \<le> real_of_int 880"
    using bx ox by simp_all
  then show "120 \<le> curve_x lm i" "curve_x lm i \<le> 880"
    unfolding p fadd_def
    using fl_ge_int[of 120 "base_x + offset_x"] fl_le_int[of 880 "base_x + offset_x"] by simp_all
  have "real_of_int 202 \<le> base_y + offset_y" "base_y + offset_y \<le> real_of_int 798"
    using byr oy by simp_all
  then show "202 \<le> curve_y lm i" "curve_y lm i \<le> 798"
    unfolding p fadd_def
    using fl_ge_int[of 202 "base_y + offset_y"] fl_le_int[of 798 "base_y + offset_y"] by simp_all
qed

lemma curve_value_float [simp]: "fl (curve_x lm i) = curve_x lm i" "fl (curve_y lm i) = curve_y lm i"
  by (simp_all add: curve_x_def curve_y_def Let_def fadd_def)

lemma curve_point_range:
  assumes lm: "libm_bounded lm" and i: "i < 150"
  shows "120 \<le> fst (curve_point lm 1 i)" "fst (curve_point lm 1 i) \<le> 880"
    "202 \<le> snd (curve_point lm 1 i)" "snd (curve_point lm 1 i) \<le> 798"
proof -
  note r = curve_value_range[OF assms]
  have x: "real_of_int 120 \<le> curve_x lm i" "curve_x lm i \<le> real_of_int 880"
    and y: "real_of_int 202 \<le> curve_y lm i" "curve_y lm i \<le> real_of_int 798"
    using r by simp_all
  show "120 \<le> fst (curve_point lm 1 i)" "fst (curve_point lm 1 i) \<le> 880"
    "202 \<le> snd (curve_point lm 1 i)" "snd (curve_point lm 1 i) \<le> 798"
    using py_int_range[OF x] py_int_range[OF y] by (simp_all add: curve_point_eq fmul_def)
qed

lemma fold_concat_lists: "fold f (concat xss) a = fold (fold f) xss a"
  by (induction xss arbitrary: a) simp_all

lemma draw_elegant_curve_discs:
  "draw_elegant_curve lm (fdiv (float_of_int sz) 1024) (line_width_of sz) img =
     fold (\<lambda>bb. ellipse bb white) (curve_discs lm sz) img"
proof -
  have 1: "draw_samples lw pts im = fold (\<lambda>bb. ellipse bb white) (sample_discs lw pts) im"
    for lw pts im
    by (simp add: draw_samples_def sample_discs_def fold_map comp_def)
  have 2: "draw_segment lw pts i im = fold (\<lambda>bb. ellipse bb white) (segment_discs lw pts i) im"
    for lw pts i im
    by (simp add: draw_segment_def segment_discs_def Let_def fold_map comp_def)
  have 3: "draw_segments lw pts im =
      fold (\<lambda>bb. ellipse bb white) (concat (map (segment_discs lw pts) [0..<length pts - 1])) im"
    for lw pts im
    by (simp add: draw_segments_def fold_concat_lists fold_map comp_def 2[abs_def])
  show ?thesis
    by (simp add: draw_elegant_curve_def curve_discs_def Let_def 1 3)
qed

lemma substep_coordinate_range:
  assumes a: "a \<le> x1" "x1 \<le> b" "a \<le> x2" "x2 \<le> b" and ab: "\<bar>a\<bar> < 2 ^ 52" "\<bar>b\<bar> < 2 ^ 52"
    and t: "0 \<le> t" "t \<le> 1"
  shows "a \<le> py_int (fadd (float_of_int x1) (fmul (float_of_int (x2 - x1)) t))"
    and "py_int (fadd (float_of_int x1) (fmul (float_of_int (x2 - x1)) t)) \<le> b"
proof -
  define d where "d = x2 - x1"
  have x1: "\<bar>x1\<bar> < 2 ^ 53" using a ab by simp
  have dd: "\<bar>d\<bar> < 2 ^ 53" using a ab by (simp add: d_def)
  have f1: "float_of_int x1 = of_int x1" using x1 by (rule float_of_int_exact)
  have fd: "float_of_int d = of_int d" using dd by (rule float_of_int_exact)
  define m where "m = fmul (float_of_int d) t"
  have m: "of_int (min 0 d) \<le> m" "m \<le> of_int (max 0 d)"
  proof -
    have "of_int (min 0 d) \<le> of_int d * t \<and> of_int d * t \<le> of_int (max 0 d)"
    proof (cases "0 \<le> d")
      case True
      then have "0 \<le> real_of_int d * t" using t by simp
      moreover have "real_of_int d * t \<le> real_of_int d * 1"
        using True t by (intro mult_left_mono) simp_all
      ultimately have "0 \<le> real_of_int d * t" "real_of_int d * t \<le> real_of_int d * 1" by blast+
      then show ?thesis using True by simp
    next
      case False
      then have "real_of_int d * t \<le> 0" using t by (simp add: mult_nonpos_nonneg)
      moreover have "real_of_int d * 1 \<le> real_of_int d * t"
        using False t by (intro mult_left_mono_neg) simp_all
      ultimately have "real_of_int d * 1 \<le> real_of_int d * t" "real_of_int d * t \<le> 0" by blast+
      then show ?thesis using False by simp
    qed
    then have "of_int (min 0 d) \<le> of_int d * t" "of_int d * t \<le> of_int (max 0 d)" by blast+
    moreover have "\<bar>min 0 d\<bar> < 2 ^ 53" "\<bar>max 0 d\<bar> < 2 ^ 53" using dd by simp_all
    ultimately show "of_int (min 0 d) \<le> m" "m \<le> of_int (max 0 d)"
      unfolding m_def fmul_def fd by (simp_all only: fl_ge_int fl_le_int)
  qed
  have "a \<le> x1 + min 0 d" "x1 + max 0 d \<le> b" using a by (simp_all add: d_def)
  then have "real_of_int a \<le> of_int x1 + of_int (min 0 d)" "of_int x1 + of_int (max 0 d) \<le> real_of_int b"
    by (simp_all only: of_int_add[symmetric] of_int_le_iff)
  with m have "real_of_int a \<le> of_int x1 + m" "of_int x1 + m \<le> real_of_int b" by linarith+
  moreover have "\<bar>a\<bar> < 2 ^ 53" "\<bar>b\<bar> < 2 ^ 53" using ab by simp_all
  ultimately have "real_of_int a \<le> fadd (float_of_int x1) m" "fadd (float_of_int x1) m \<le> real_of_int b"
    unfolding fadd_def f1 by (simp_all only: fl_ge_int fl_le_int)
  then show "a \<le> py_int (fadd (float_of_int x1) (fmul (float_of_int (x2 - x1)) t))"
    and "py_int (fadd (float_of_int x1) (fmul (float_of_int (x2 - x1)) t)) \<le> b"
    unfolding m_def d_def by (rule py_int_range)+
qed

lemma current_width_16: "current_width 16 n idx \<in> {9, 12, 16}"
proof -
  have "py_int (fmul (float_of_int 16) (fl (6 / 10))) = 9"
    "py_int (fmul (float_of_int 16) (fl (8 / 10))) = 12"
    by (simp_all add: fmul_def float_of_int_def py_int_def fl_eval)
  then show ?thesis by (simp add: current_width_def)
qed

lemma disc_inside:
  assumes "w \<in> {9, 12, 16}" "120 \<le> fst p" "fst p \<le> 880" "202 \<le> snd p" "snd p \<le> 798"
  shows "inside_canvas 1024 (disc w p)"
  using assms by (cases p) (auto simp: inside_canvas_def disc_def)

lemma length_curve_points [simp]: "length (curve_points lm scale) = 150"
  by (simp add: curve_points_def num_points_def)

lemma nth_curve_points: "i < 150 \<Longrightarrow> curve_points lm scale ! i = curve_point lm scale i"
  by (simp add: curve_points_def num_points_def)

lemma taylor_libm_bounded: "libm_bounded taylor_libm"
proof -
  have "\<bar>fl (max (- 1) (min 1 p))\<bar> \<le> 1" for p :: real
    using fl_abs_le_int[of "max (- 1) (min 1 p)" 1] by simp
  then show ?thesis by (simp add: libm_bounded_def taylor_libm_def)
qed

section \<open>Scaling the size\<close>

lemma float_grid:
  assumes "fl v = v" "v \<noteq> 0"
  shows "\<exists>r::int. v = of_int r * pow2 (ilog2 v - 52)"
proof -
  have "fl v = of_int (round_half_even (v / pow2 (ilog2 v - 52))) * pow2 (ilog2 v - 52)"
    using assms(2) by (simp add: fl_def Let_def)
  with assms(1) show ?thesis by metis
qed

lemma scaled_floor:
  assumes v: "fl v = v" "1 \<le> v" "v < 1024" and k: "0 < k" "k < 2 ^ 42"
  shows "k * \<lfloor>v\<rfloor> \<le> \<lfloor>fl (v * of_int k)\<rfloor>" and "\<lfloor>fl (v * of_int k)\<rfloor> \<le> k * \<lfloor>v\<rfloor> + k - 1"
proof -
  define n where "n = \<lfloor>v\<rfloor>"
  define K where "K = real_of_int k"
  have K: "0 < K" using k by (simp add: K_def)
  have n: "of_int n \<le> v" "v < of_int n + 1" unfolding n_def by linarith+
  have n0: "1 \<le> n" using v(2) by (simp add: n_def)
  have "real_of_int n < real_of_int 1024" using n(1) v(3) by simp
  then have n1: "n < 1024" by (simp only: of_int_less_iff)
  have kn: "\<bar>k * n\<bar> < 2 ^ 53" "\<bar>k * n + k\<bar> < 2 ^ 53"
  proof -
    have a: "k * n \<le> k * 1024" using k n1 by (intro mult_left_mono) simp_all
    have b: "k * 1024 + k < 9007199254740992" using k by simp
    have c: "0 \<le> k * n" using k n0 by simp
    have "\<bar>k * n\<bar> < 9007199254740992" "\<bar>k * n + k\<bar> < 9007199254740992"
      using a b c k by linarith+
    then show "\<bar>k * n\<bar> < 2 ^ 53" "\<bar>k * n + k\<bar> < 2 ^ 53" by simp_all
  qed
  have "of_int n * K \<le> v * K" using n(1) K by (simp add: mult_right_mono)
  then have "real_of_int (k * n) \<le> v * of_int k" by (simp add: K_def mult.commute)
  then have lo: "real_of_int (k * n) \<le> fl (v * of_int k)" using kn(1) by (intro fl_ge_int)
  then show "k * \<lfloor>v\<rfloor> \<le> \<lfloor>fl (v * of_int k)\<rfloor>" by (simp add: le_floor_iff n_def)
  have v0: "v \<noteq> 0" using v(2) by simp
  define F where "F = ilog2 v - 52"
  from float_grid[OF v(1) v0] obtain r :: int where r: "v = of_int r * pow2 F" by (auto simp: F_def)
  have "pow2 (ilog2 v) \<le> v" using ilog2_bounds(1)[OF v0] v(2) by simp
  then have "pow2 (ilog2 v) < pow2 10" using v(3) by (simp add: pow2_numeral)
  then have "ilog2 v < 10" by (metis pow2_mono not_le)
  then have F: "F \<le> 0" by (simp add: F_def)
  have p: "pow2 F * 2 ^ nat (- F) = 1" using F by (simp add: pow2_def)
  have "of_int n + 1 - v = (of_int ((n + 1) * 2 ^ nat (- F)) - of_int r) * pow2 F"
    using p by (simp add: r algebra_simps)
  then have g: "of_int n + 1 - v = of_int ((n + 1) * 2 ^ nat (- F) - r) * pow2 F" by simp
  have "0 < of_int ((n + 1) * 2 ^ nat (- F) - r) * pow2 F" using n(2) unfolding g[symmetric] by simp
  then have "0 < real_of_int ((n + 1) * 2 ^ nat (- F) - r)"
    using pow2_pos[of F] by (simp only: zero_less_mult_pos2)
  then have "1 \<le> (n + 1) * 2 ^ nat (- F) - r" by linarith
  then have "1 \<le> real_of_int ((n + 1) * 2 ^ nat (- F) - r)" by linarith
  then have "1 * pow2 F \<le> real_of_int ((n + 1) * 2 ^ nat (- F) - r) * pow2 F"
    by (intro mult_right_mono) simp_all
  then have gap: "pow2 F \<le> of_int n + 1 - v" unfolding g by simp
  have "v < pow2 (ilog2 v + 1)" using ilog2_bounds(2)[OF v0] v(2) by simp
  also have "\<dots> = pow2 F * 2 ^ 53" by (simp add: F_def pow2_diff pow2_add pow2_numeral)
  finally have "v / 2 ^ 53 < pow2 F" by (simp add: field_simps)
  then have "v / 2 ^ 53 * K < pow2 F * K" using K by (simp add: mult_strict_right_mono)
  then have 1: "(v * K) / 2 ^ 53 < pow2 F * K" by simp
  have 2: "pow2 F * K \<le> (of_int n + 1 - v) * K" using gap K by (simp add: mult_right_mono)
  have 3: "\<bar>fl (v * K) - v * K\<bar> \<le> \<bar>v * K\<bar> / 2 ^ 53" by (rule fl_error)
  have 4: "\<bar>v * K\<bar> = v * K" using v(2) K by simp
  have "fl (v * K) < v * K + (of_int n + 1 - v) * K" using 1 2 3 unfolding 4 by linarith
  also have "\<dots> = real_of_int (k * n + k)" by (simp add: K_def algebra_simps)
  finally have "fl (v * of_int k) < real_of_int (k * n + k)" by (simp add: K_def)
  then have "\<lfloor>fl (v * of_int k)\<rfloor> < k * n + k" by (simp only: floor_less_iff)
  then show "\<lfloor>fl (v * of_int k)\<rfloor> \<le> k * \<lfloor>v\<rfloor> + k - 1" by (simp add: n_def)
qed

lemma sin_cubic:
  "\<bar>sin x - (x - x ^ 3 / 6)\<bar> \<le> \<bar>x\<bar> ^ 5 / 120" for x :: real
proof -
  have "{..<5::nat} = {0, 1, 2, 3, 4}" by auto
  then have "(\<Sum>m<5. sin_coeff m * x ^ m) = x - x ^ 3 / 6"
    by (simp add: sin_coeff_def fact_numeral)
  then show ?thesis using Maclaurin_sin_bound[of x 5] by (simp add: fact_numeral)
qed

lemma fl_le_repr: "x \<le> y \<Longrightarrow> fl y = y \<Longrightarrow> fl x \<le> y"
  using fl_mono[of x y] by simp

lemma fl_ge_repr: "y \<le> x \<Longrightarrow> fl y = y \<Longrightarrow> y \<le> fl x"
  using fl_mono[of y x] by simp

lemma sample_3_argument:
  "fmul (fmul (int_truediv (int 3) (int num_points)) math_pi) (fl (12 / 10)) =
     2716507296778921 / 2 ^ 55"
  by (simp add: fmul_def int_truediv_def math_pi_def num_points_def fl_eval)

lemma sample_3_damping:
  "fsub 1 (fmul (int_truediv (int 3) (int num_points)) (fl (3 / 10))) = 4476578029606273 / 2 ^ 52"
  by (simp add: fmul_def fsub_def int_truediv_def num_points_def fl_eval)

lemma sample_3_base:
  "fadd 200 (fmul (float_of_int (800 - 200)) (int_truediv (int 3) (int num_points))) = 212"
  by (simp add: fmul_def fadd_def float_of_int_def int_truediv_def num_points_def fl_eval)

lemma sample_3_value:
  assumes "libm_accurate lm"
  shows "3487 / 16 \<le> curve_x lm 3" "curve_x lm 3 \<le> 27903 / 128"
proof -
  define a :: real where "a = 2716507296778921 / 2 ^ 55"
  define s where "s = m_sin lm a"
  have a: "0 \<le> a" "a \<le> 5" by (simp_all add: a_def)
  then have "\<bar>s - sin a\<bar> \<le> 1 / 2 ^ 30" using assms by (simp add: libm_accurate_def s_def)
  moreover have "\<bar>sin a - (a - a ^ 3 / 6)\<bar> \<le> \<bar>a\<bar> ^ 5 / 120" by (rule sin_cubic)
  moreover have "78985 / 2 ^ 20 \<le> a - a ^ 3 / 6 - \<bar>a\<bar> ^ 5 / 120 - 1 / 2 ^ 30"
    "a - a ^ 3 / 6 + \<bar>a\<bar> ^ 5 / 120 + 1 / 2 ^ 30 \<le> 78986 / 2 ^ 20"
    by (simp_all add: a_def power_divide)
  ultimately have s: "78985 / 2 ^ 20 \<le> s" "s \<le> 78986 / 2 ^ 20" by linarith+
  define A where "A = fmul 80 s"
  have r1: "fl (80 * 78985 / 2 ^ 20) = 80 * 78985 / 2 ^ 20" "fl (80 * 78986 / 2 ^ 20) = 80 * 78986 / 2 ^ 20"
    using fl_representable[of "80 * 78985" "- 20"] fl_representable[of "80 * 78986" "- 20"]
    by (simp_all add: pow2_numeral)
  have A: "80 * 78985 / 2 ^ 20 \<le> A" "A \<le> 80 * 78986 / 2 ^ 20"
    unfolding A_def fmul_def using s by (intro fl_ge_repr fl_le_repr r1; simp)+
  define d :: real where "d = 4476578029606273 / 2 ^ 52"
  define off where "off = fmul A d"
  have "95 / 16 \<le> (80 * 78985 / 2 ^ 20) * d" "(80 * 78986 / 2 ^ 20) * d \<le> 767 / 128"
    by (simp_all add: d_def)
  moreover have "(80 * 78985 / 2 ^ 20) * d \<le> A * d" "A * d \<le> (80 * 78986 / 2 ^ 20) * d"
    using A by (simp_all add: d_def)
  ultimately have Ad: "95 / 16 \<le> A * d" "A * d \<le> 767 / 128" by linarith+
  have r2: "fl (95 / 16) = 95 / 16" "fl (767 / 128) = 767 / 128"
    using fl_representable[of 95 "- 4"] fl_representable[of 767 "- 7"]
    by (simp_all add: pow2_numeral)
  have off: "95 / 16 \<le> off" "off \<le> 767 / 128"
    unfolding off_def fmul_def using Ad by (intro fl_ge_repr fl_le_repr r2; simp)+
  have r3: "fl (3487 / 16) = 3487 / 16" "fl (27903 / 128) = 27903 / 128"
    using fl_representable[of 3487 "- 4"] fl_representable[of 27903 "- 7"]
    by (simp_all add: pow2_numeral)
  have v: "curve_x lm 3 = fl (212 + off)"
    unfolding curve_x_def Let_def sample_3_base sample_3_argument sample_3_damping
      off_def A_def s_def a_def d_def
    by (simp add: fadd_def)
  show "3487 / 16 \<le> curve_x lm 3" "curve_x lm 3 \<le> 27903 / 128"
    unfolding v using off by (intro fl_ge_repr fl_le_repr r3; simp)+
qed

lemma Maclaurin_cos_bound:
  "\<bar>cos x - (\<Sum>m<n. cos_coeff m * x ^ m)\<bar> \<le> inverse (fact n) * \<bar>x\<bar> ^ n" for x :: real
proof -
  from Maclaurin_cos_expansion[of x n] obtain t where
    e: "cos x = (\<Sum>m<n. cos_coeff m * x ^ m) + (cos (t + 1 / 2 * real n * pi) / fact n) * x ^ n"
    by blast
  define c where "c = cos (t + 1 / 2 * real n * pi)"
  define w where "w = inverse (fact n) * \<bar>x\<bar> ^ n"
  have w: "0 \<le> w" by (simp add: w_def)
  have c: "\<bar>c\<bar> \<le> 1" by (simp add: c_def)
  have "cos x - (\<Sum>m<n. cos_coeff m * x ^ m) = (c / fact n) * x ^ n"
    using e by (simp only: c_def)
  then have "\<bar>cos x - (\<Sum>m<n. cos_coeff m * x ^ m)\<bar> = \<bar>(c / fact n) * x ^ n\<bar>" by simp
  also have "\<dots> = \<bar>c\<bar> * w" by (simp add: w_def abs_mult power_abs divide_inverse abs_inverse)
  also have "\<dots> \<le> 1 * w" using c w by (rule mult_right_mono)
  finally show ?thesis by (simp add: w_def)
qed

lemma fact_30: "(fact 30 :: real) = 265252859812191058636308480000000"
  by (simp add: fact_numeral)

lemma taylor_tail: "0 \<le> x \<Longrightarrow> x \<le> 5 \<Longrightarrow> inverse (fact 30) * \<bar>x\<bar> ^ 30 \<le> 1 / 2 ^ 31" for x :: real
proof -
  assume x: "0 \<le> x" "x \<le> 5"
  then have "\<bar>x\<bar> ^ 30 \<le> 5 ^ 30" by (intro power_mono) simp_all
  then have "inverse (fact 30) * \<bar>x\<bar> ^ 30 \<le> inverse (fact 30) * 5 ^ 30"
    by (intro mult_left_mono) simp_all
  also have "\<dots> \<le> 1 / 2 ^ 31" by (simp add: fact_30)
  finally show ?thesis .
qed

lemma clamp_rounded_close:
  assumes "\<bar>p - y\<bar> \<le> 1 / 2 ^ 31" "\<bar>y\<bar> \<le> 1"
  shows "\<bar>fl (max (- 1) (min 1 p)) - y\<bar> \<le> 1 / 2 ^ 30"
proof -
  define c where "c = max (- 1) (min 1 p)"
  have c: "\<bar>c\<bar> \<le> 1" by (simp add: c_def)
  have "\<bar>c - y\<bar> \<le> \<bar>p - y\<bar>" using assms(2) unfolding c_def by linarith
  moreover have "\<bar>fl c - c\<bar> \<le> 1 / 2 ^ 53" using fl_abs_error[OF c] by simp
  moreover have "(1::real) / 2 ^ 53 + 1 / 2 ^ 31 \<le> 1 / 2 ^ 30" by simp
  ultimately show ?thesis using assms(1) unfolding c_def[symmetric] by linarith
qed

lemma taylor_libm_accurate: "libm_accurate taylor_libm"
  unfolding libm_accurate_def taylor_libm_def
proof (intro allI impI conjI; simp only: libm.simps)
  fix x :: real assume x: "0 \<le> x \<and> x \<le> 5"
  have "\<bar>sin x - (\<Sum>m<30. sin_coeff m * x ^ m)\<bar> \<le> 1 / 2 ^ 31"
    using Maclaurin_sin_bound[of x 30] taylor_tail[of x] x by linarith
  then show "\<bar>fl (max (- 1) (min 1 (\<Sum>m<30. sin_coeff m * x ^ m))) - sin x\<bar> \<le> 1 / 2 ^ 30"
    by (intro clamp_rounded_close) (simp_all add: abs_minus_commute)
  have "\<bar>cos x - (\<Sum>m<30. cos_coeff m * x ^ m)\<bar> \<le> 1 / 2 ^ 31"
    using Maclaurin_cos_bound[of x 30] taylor_tail[of x] x by linarith
  then show "\<bar>fl (max (- 1) (min 1 (\<Sum>m<30. cos_coeff m * x ^ m))) - cos x\<bar> \<le> 1 / 2 ^ 30"
    by (intro clamp_rounded_close) (simp_all add: abs_minus_commute)
qed

lemma scale_3072: "fdiv (float_of_int 3072) 1024 = 3"
  using fl_of_int[of 3] by (simp add: fdiv_def float_of_int_exact)

lemma sample_3_points:
  assumes "libm_accurate lm"
  shows "fst (curve_point lm 1 3) = 217" "fst (curve_point lm 3 3) = 653"
proof -
  define v where "v = curve_x lm 3"
  note b = sample_3_value[OF assms, folded v_def]
  have fv: "fl v = v" by (simp add: v_def curve_x_def Let_def fadd_def)
  have "\<lfloor>v\<rfloor> = 217" using b by (intro floor_unique) simp_all
  then show "fst (curve_point lm 1 3) = 217"
    using b by (simp add: curve_point_eq v_def[symmetric] fmul_def fv py_int_def)
  have r: "fl (10461 / 16) = 10461 / 16" "fl (83709 / 128) = 83709 / 128"
    using fl_representable[of 10461 "- 4"] fl_representable[of 83709 "- 7"]
    by (simp_all add: pow2_numeral)
  have "10461 / 16 \<le> v * 3" "v * 3 \<le> 83709 / 128" using b by simp_all
  then have w: "10461 / 16 \<le> fl (v * 3)" "fl (v * 3) \<le> 83709 / 128"
    by (intro fl_ge_repr fl_le_repr r; simp)+
  then have "\<lfloor>fl (v * 3)\<rfloor> = 653" by (intro floor_unique) simp_all
  then show "fst (curve_point lm 3 3) = 653"
    using w by (simp add: curve_point_eq v_def[symmetric] fmul_def py_int_def)
qed

lemma scale_multiple:
  assumes "0 < k" "k < 2 ^ 42"
  shows "fdiv (float_of_int (k * 1024)) 1024 = of_int k"
proof -
  have "\<bar>k * 1024\<bar> < 2 ^ 53" "\<bar>k\<bar> < 2 ^ 53" using assms by simp_all
  then show ?thesis by (simp add: fdiv_def float_of_int_exact fl_of_int)
qed

lemma scaled_coordinate:
  assumes v: "fl v = v" "120 \<le> v" "v \<le> 880" and k: "0 < k" "k < 2 ^ 42"
  shows "k * py_int (fmul v 1) \<le> py_int (fmul v (of_int k))"
    and "py_int (fmul v (of_int k)) \<le> k * py_int (fmul v 1) + k - 1"
proof -
  have 1: "py_int (fmul v 1) = \<lfloor>v\<rfloor>" using v by (simp add: fmul_def py_int_def)
  have "0 \<le> v * of_int k" using v k by simp
  then have "0 \<le> fl (v * of_int k)" by (rule fl_nonneg)
  then have 2: "py_int (fmul v (of_int k)) = \<lfloor>fl (v * of_int k)\<rfloor>"
    by (simp add: fmul_def py_int_def)
  have "1 \<le> v" "v < 1024" using v by simp_all
  from scaled_floor[OF v(1) this k]
  show "k * py_int (fmul v 1) \<le> py_int (fmul v (of_int k))"
    and "py_int (fmul v (of_int k)) \<le> k * py_int (fmul v 1) + k - 1"
    unfolding 1 2 by simp_all
qed

section \<open>Rounding errors along the curve\<close>

lemma fl_err_u: "\<bar>x\<bar> \<le> b \<Longrightarrow> \<bar>fl x - x\<bar> \<le> b * ulp53"
  using fl_abs_error[of x b] by (simp add: ulp53_def)

lemma fmul_err:
  assumes x: "\<bar>x - X\<bar> \<le> a * ulp53" and y: "\<bar>y - Y\<bar> \<le> b * ulp53"
    and X: "\<bar>X\<bar> \<le> BX" and Y: "\<bar>Y\<bar> \<le> BY"
    and ab: "0 \<le> a" "a \<le> 10000" "0 \<le> b" "b \<le> 10000" and B: "BX \<le> 10000" "BY \<le> 10000"
  shows "\<bar>fmul x y - X * Y\<bar> \<le> (BX * b + BY * a + BX * BY + 1) * ulp53"
proof -
  define u where "u = ulp53"
  have u: "0 < u" "u * 10000000000 \<le> 1" by (simp_all add: u_def ulp53_def)
  have BX0: "0 \<le> BX" and BY0: "0 \<le> BY" using X Y by linarith+
  define ex where "ex = \<bar>x - X\<bar>"
  define ey where "ey = \<bar>y - Y\<bar>"
  have ex: "0 \<le> ex" "ex \<le> a * u" and ey: "0 \<le> ey" "ey \<le> b * u"
    using x y by (simp_all add: ex_def ey_def u_def)
  have "x * y - X * Y = X * (y - Y) + Y * (x - X) + (x - X) * (y - Y)" by (simp add: algebra_simps)
  then have "\<bar>x * y - X * Y\<bar> \<le> \<bar>X * (y - Y)\<bar> + \<bar>Y * (x - X)\<bar> + \<bar>(x - X) * (y - Y)\<bar>"
    by linarith
  also have "\<dots> = \<bar>X\<bar> * ey + \<bar>Y\<bar> * ex + ex * ey" by (simp add: abs_mult ex_def ey_def)
  also have "\<dots> \<le> BX * (b * u) + BY * (a * u) + (a * u) * (b * u)"
    using X Y ex ey BX0 BY0 by (intro add_mono mult_mono) simp_all
  finally have d: "\<bar>x * y - X * Y\<bar> \<le> BX * (b * u) + BY * (a * u) + (a * u) * (b * u)" .
  have abu: "(a * u) * (b * u) \<le> (10000 * u) * (10000 * u)"
    using ab u by (intro mult_mono) simp_all
  have abu': "(10000 * u) * (10000 * u) \<le> u / 4"
  proof -
    have "(10000 * u) * (10000 * u) = u * (u * 100000000)" by simp
    also have "\<dots> \<le> u * (1 / 4)" using u by (intro mult_left_mono) simp_all
    finally show ?thesis by simp
  qed
  have t1: "BX * (b * u) \<le> 100000000 * u" "BY * (a * u) \<le> 100000000 * u"
  proof -
    have "BX * b \<le> 10000 * 10000" using ab B BX0 by (intro mult_mono) simp_all
    then have "(BX * b) * u \<le> (10000 * 10000) * u" using u by (intro mult_right_mono) simp_all
    then show "BX * (b * u) \<le> 100000000 * u" by (simp add: mult.assoc)
    have "BY * a \<le> 10000 * 10000" using ab B BY0 by (intro mult_mono) simp_all
    then have "(BY * a) * u \<le> (10000 * 10000) * u" using u by (intro mult_right_mono) simp_all
    then show "BY * (a * u) \<le> 100000000 * u" by (simp add: mult.assoc)
  qed
  have XY: "\<bar>X * Y\<bar> \<le> BX * BY" unfolding abs_mult using X Y BX0 by (intro mult_mono) simp_all
  define D where "D = BX * (b * u) + BY * (a * u) + (a * u) * (b * u)"
  have D: "D \<le> 200000001 * u" using t1 abu abu' u unfolding D_def by linarith
  have "\<bar>x * y\<bar> \<le> BX * BY + D" using d XY unfolding D_def by linarith
  then have "\<bar>fl (x * y) - x * y\<bar> \<le> (BX * BY + D) * u" unfolding u_def by (rule fl_err_u)
  moreover have "D * u \<le> u / 2"
  proof -
    have "D * u \<le> (200000001 * u) * u" using D u by (intro mult_right_mono) simp_all
    also have "\<dots> = u * (u * 200000001)" by simp
    also have "\<dots> \<le> u * (1 / 2)" using u by (intro mult_left_mono) simp_all
    finally show ?thesis by simp
  qed
  ultimately have "\<bar>fl (x * y) - x * y\<bar> \<le> BX * BY * u + u / 2" by (simp add: algebra_simps)
  moreover have "(a * u) * (b * u) \<le> u / 4" using abu abu' by linarith
  moreover note d
  ultimately have "\<bar>fl (x * y) - X * Y\<bar> \<le> BX * (b * u) + BY * (a * u) + BX * BY * u + u"
  proof -
    define p where "p = x * y"
    define q where "q = X * Y"
    define r where "r = (a * u) * (b * u)"
    define s where "s = BX * (b * u) + BY * (a * u)"
    define w where "w = BX * BY * u"
    assume "\<bar>fl (x * y) - x * y\<bar> \<le> BX * BY * u + u / 2" "(a * u) * (b * u) \<le> u / 4"
      "\<bar>x * y - X * Y\<bar> \<le> BX * (b * u) + BY * (a * u) + (a * u) * (b * u)"
    then have "\<bar>fl p - p\<bar> \<le> w + u / 2" "r \<le> u / 4" "\<bar>p - q\<bar> \<le> s + r"
      by (simp_all add: p_def q_def r_def s_def w_def)
    then have "\<bar>fl p - q\<bar> \<le> s + w + u" using u by linarith
    then show ?thesis by (simp add: p_def q_def s_def w_def)
  qed
  then show ?thesis by (simp add: fmul_def u_def algebra_simps)
qed

lemma fadd_err:
  assumes x: "\<bar>x - X\<bar> \<le> a * ulp53" and y: "\<bar>y - Y\<bar> \<le> b * ulp53"
    and B: "\<bar>X + Y\<bar> \<le> B" and ab: "0 \<le> a" "a \<le> 10000" "0 \<le> b" "b \<le> 10000"
  shows "\<bar>fadd x y - (X + Y)\<bar> \<le> (a + b + B + 1) * ulp53"
proof -
  define u where "u = ulp53"
  have u: "0 < u" "u * 10000000000 \<le> 1" by (simp_all add: u_def ulp53_def)
  have d: "\<bar>(x + y) - (X + Y)\<bar> \<le> (a + b) * u" using x y by (simp add: u_def algebra_simps)
  then have "\<bar>x + y\<bar> \<le> B + (a + b) * u" using B by linarith
  then have "\<bar>fl (x + y) - (x + y)\<bar> \<le> (B + (a + b) * u) * u" unfolding u_def by (rule fl_err_u)
  moreover have "((a + b) * u) * u \<le> u"
  proof -
    have "((a + b) * u) * u \<le> (20000 * u) * u" using ab u by (intro mult_right_mono) simp_all
    also have "\<dots> = u * (u * 20000)" by simp
    also have "\<dots> \<le> u * 1" using u by (intro mult_left_mono) simp_all
    finally show ?thesis by simp
  qed
  ultimately have "\<bar>fl (x + y) - (x + y)\<bar> \<le> B * u + u" by (simp add: algebra_simps)
  with d have "\<bar>fl (x + y) - (X + Y)\<bar> \<le> (a + b) * u + B * u + u" by linarith
  then show ?thesis by (simp add: fadd_def u_def algebra_simps)
qed

lemma fsub_err:
  assumes x: "\<bar>x - X\<bar> \<le> a * ulp53" and y: "\<bar>y - Y\<bar> \<le> b * ulp53"
    and B: "\<bar>X - Y\<bar> \<le> B" and ab: "0 \<le> a" "a \<le> 10000" "0 \<le> b" "b \<le> 10000"
  shows "\<bar>fsub x y - (X - Y)\<bar> \<le> (a + b + B + 1) * ulp53"
proof -
  have "\<bar>- y - (- Y)\<bar> \<le> b * ulp53" using y by simp
  from fadd_err[OF x this _ ab, of B] B show ?thesis by (simp add: fadd_def fsub_def)
qed


lemma exact_err: "\<bar>c - c\<bar> \<le> 0 * ulp53"
  by simp

lemma literal_err:
  "\<bar>fl (12 / 10) - 6 / 5\<bar> \<le> 2 * ulp53" "\<bar>fl (11 / 10) - 11 / 10\<bar> \<le> 2 * ulp53"
  "\<bar>fl (3 / 10) - 3 / 10\<bar> \<le> 1 * ulp53" "\<bar>fl (2 / 10) - 1 / 5\<bar> \<le> 1 * ulp53"
  using fl_err_u[of "6 / 5" 2] fl_err_u[of "11 / 10" 2] fl_err_u[of "3 / 10" 1]
    fl_err_u[of "1 / 5" 1] by simp_all

lemma truediv_err:
  assumes "i < 150"
  shows "\<bar>int_truediv (int i) (int num_points) - real i / 150\<bar> \<le> 1 * ulp53"
  using fl_err_u[of "real i / 150" 1] assms by (simp add: int_truediv_def num_points_def)

lemma math_pi_range: "3 < math_pi" "math_pi < 22 / 7" "\<bar>math_pi\<bar> \<le> 4"
  by (simp_all add: math_pi_def)

lemma wave_error:
  assumes i: "i < 150"
  shows "\<bar>wave_x i - real i / 150 * math_pi * (6 / 5)\<bar> \<le> 36 * ulp53"
    and "\<bar>wave_y i - real i / 150 * math_pi * (6 / 5) * (11 / 10)\<bar> \<le> 93 * ulp53"
proof -
  define r where "r = real i / 150"
  define t where "t = int_truediv (int i) (int num_points)"
  have r: "\<bar>r\<bar> \<le> 1" using i by (simp add: r_def)
  have t: "\<bar>t - r\<bar> \<le> 1 * ulp53" unfolding t_def r_def using i by (rule truediv_err)
  have p: "\<bar>fmul t math_pi - r * math_pi\<bar> \<le> 9 * ulp53"
    using fmul_err[OF t exact_err[of math_pi], of 1 4] r math_pi_range by simp
  have rp: "\<bar>r * math_pi\<bar> \<le> 4"
    unfolding abs_mult using r math_pi_range(3) mult_mono[of "\<bar>r\<bar>" 1 "\<bar>math_pi\<bar>" 4] by simp
  have a: "\<bar>fmul (fmul t math_pi) (fl (12 / 10)) - r * math_pi * (6 / 5)\<bar> \<le> 36 * ulp53"
    using fmul_err[OF p literal_err(1), of 4 2] rp by simp
  then show "\<bar>wave_x i - real i / 150 * math_pi * (6 / 5)\<bar> \<le> 36 * ulp53"
    by (simp add: wave_x_def t_def r_def)
  have rp2: "\<bar>r * math_pi * (6 / 5)\<bar> \<le> 5" using rp by (simp add: abs_mult)
  have "\<bar>fmul (fmul (fmul t math_pi) (fl (12 / 10))) (fl (11 / 10))
          - r * math_pi * (6 / 5) * (11 / 10)\<bar> \<le> 93 * ulp53"
    using fmul_err[OF a literal_err(2), of 5 2] rp2 by simp
  then show "\<bar>wave_y i - real i / 150 * math_pi * (6 / 5) * (11 / 10)\<bar> \<le> 93 * ulp53"
    by (simp add: wave_y_def wave_x_def t_def r_def)
qed


lemma unit_product:
  fixes s d :: real
  assumes "\<bar>s\<bar> \<le> 1" "\<bar>d\<bar> \<le> 1"
  shows "\<bar>s * d\<bar> \<le> 1"
  unfolding abs_mult using assms mult_mono[of "\<bar>s\<bar>" 1 "\<bar>d\<bar>" 1] by simp

lemma curve_x_error:
  assumes lm: "libm_bounded lm" and i: "i < 150"
  shows "\<bar>curve_x lm i - (200 + 600 * (real i / 150)
           + 80 * m_sin lm (wave_x i) * (1 - real i / 150 * (3 / 10)))\<bar> \<le> 3525 * ulp53"
proof -
  define r where "r = real i / 150"
  define t where "t = int_truediv (int i) (int num_points)"
  define S where "S = m_sin lm (wave_x i)"
  define D where "D = 1 - r * (3 / 10)"
  have r: "0 \<le> r" "r \<le> 1" "\<bar>r\<bar> \<le> 1" using i by (simp_all add: r_def)
  have S: "\<bar>S\<bar> \<le> 1" using lm by (simp add: S_def libm_bounded_def)
  have D: "\<bar>D\<bar> \<le> 1" "\<bar>1 - r * (3 / 10)\<bar> \<le> 1" using r by (simp_all add: D_def)
  have SD: "\<bar>S * D\<bar> \<le> 1" using S D(1) by (rule unit_product)
  have t: "\<bar>t - r\<bar> \<le> 1 * ulp53" unfolding t_def r_def using i by (rule truediv_err)
  have m: "\<bar>fmul 600 t - 600 * r\<bar> \<le> 1201 * ulp53"
    using fmul_err[OF exact_err[of 600] t, of 600 1] r by simp
  have b: "\<bar>fadd 200 (fmul 600 t) - (200 + 600 * r)\<bar> \<le> 2002 * ulp53"
    using fadd_err[OF exact_err[of 200] m, of 800] r by simp
  have A: "\<bar>fmul 80 S - 80 * S\<bar> \<le> 81 * ulp53"
    using fmul_err[OF exact_err[of 80] exact_err[of S], of 80 1] S by simp
  have q: "\<bar>fmul t (fl (3 / 10)) - r * (3 / 10)\<bar> \<le> 4 * ulp53"
    using fmul_err[OF t literal_err(3), of 1 1] r by simp
  have d: "\<bar>fsub 1 (fmul t (fl (3 / 10))) - D\<bar> \<le> 6 * ulp53"
    unfolding D_def using fsub_err[OF exact_err[of 1] q, of 1] D(2) by simp
  have S80: "\<bar>80 * S\<bar> \<le> 80" using S by simp
  have off: "\<bar>fmul (fmul 80 S) (fsub 1 (fmul t (fl (3 / 10)))) - 80 * S * D\<bar> \<le> 642 * ulp53"
    using fmul_err[OF A d S80 D(1)] by simp
  have "\<bar>200 + 600 * r + 80 * S * D\<bar> \<le> 200 + 600 * r + 80 * \<bar>S * D\<bar>" using r by simp
  then have B: "\<bar>(200 + 600 * r) + 80 * S * D\<bar> \<le> 880" using SD r by linarith
  have "\<bar>fadd (fadd 200 (fmul 600 t)) (fmul (fmul 80 S) (fsub 1 (fmul t (fl (3 / 10)))))
          - ((200 + 600 * r) + 80 * S * D)\<bar> \<le> 3525 * ulp53"
    using fadd_err[OF b off B] by simp
  then show ?thesis
    by (simp add: curve_x_def Let_def t_def r_def S_def D_def wave_x_def float_of_int_exact)
qed

lemma curve_y_error:
  assumes lm: "libm_bounded lm" and i: "i < 150"
  shows "\<bar>curve_y lm i - (750 - 500 * (real i / 150)
           + 48 * m_cos lm (wave_y i) * (1 - real i / 150 * (1 / 5)))\<bar> \<le> 2937 * ulp53"
proof -
  define r where "r = real i / 150"
  define t where "t = int_truediv (int i) (int num_points)"
  define S where "S = m_cos lm (wave_y i)"
  define D where "D = 1 - r * (1 / 5)"
  have r: "0 \<le> r" "r \<le> 1" "\<bar>r\<bar> \<le> 1" using i by (simp_all add: r_def)
  have S: "\<bar>S\<bar> \<le> 1" using lm by (simp add: S_def libm_bounded_def)
  have D: "\<bar>D\<bar> \<le> 1" "\<bar>1 - r * (1 / 5)\<bar> \<le> 1" using r by (simp_all add: D_def)
  have SD: "\<bar>S * D\<bar> \<le> 1" using S D(1) by (rule unit_product)
  have t: "\<bar>t - r\<bar> \<le> 1 * ulp53" unfolding t_def r_def using i by (rule truediv_err)
  have m: "\<bar>fmul (- 500) t - (- 500) * r\<bar> \<le> 1001 * ulp53"
    using fmul_err[OF exact_err[of "- 500"] t, of 500 1] r by simp
  have "\<bar>750 + (- 500) * r\<bar> \<le> 750" using r by simp
  from fadd_err[OF exact_err[of 750] m this]
  have b: "\<bar>fadd 750 (fmul (- 500) t) - (750 + (- 500) * r)\<bar> \<le> 1752 * ulp53"
    by simp
  have A: "\<bar>fmul 48 S - 48 * S\<bar> \<le> 49 * ulp53"
    using fmul_err[OF exact_err[of 48] exact_err[of S], of 48 1] S by simp
  have q: "\<bar>fmul t (fl (2 / 10)) - r * (1 / 5)\<bar> \<le> 4 * ulp53"
    using fmul_err[OF t literal_err(4), of 1 1] r by simp
  have d: "\<bar>fsub 1 (fmul t (fl (2 / 10))) - D\<bar> \<le> 6 * ulp53"
    unfolding D_def using fsub_err[OF exact_err[of 1] q, of 1] D(2) by simp
  have S48: "\<bar>48 * S\<bar> \<le> 48" using S by simp
  have off: "\<bar>fmul (fmul 48 S) (fsub 1 (fmul t (fl (2 / 10)))) - 48 * S * D\<bar> \<le> 386 * ulp53"
    using fmul_err[OF A d S48 D(1)] by simp
  have "\<bar>750 + (- 500) * r + 48 * S * D\<bar> \<le> 750 + (- 500) * r + 48 * \<bar>S * D\<bar>" using r by simp
  then have B: "\<bar>(750 + (- 500) * r) + 48 * S * D\<bar> \<le> 798" using SD r by linarith
  have "\<bar>fadd (fadd 750 (fmul (- 500) t)) (fmul (fmul 48 S) (fsub 1 (fmul t (fl (2 / 10)))))
          - ((750 + (- 500) * r) + 48 * S * D)\<bar> \<le> 2937 * ulp53"
    using fadd_err[OF b off B] by simp
  then show ?thesis
    unfolding curve_y_def Let_def amplitude_y
    by (simp add: t_def r_def S_def D_def wave_y_def wave_x_def float_of_int_exact)
qed


section \<open>Bounds on sine and cosine\<close>

lemma sin_poly:
  "\<bar>sin x - (x - x ^ 3 / 6 + x ^ 5 / 120 - x ^ 7 / 5040 + x ^ 9 / 362880 - x ^ 11 / 39916800)\<bar>
     \<le> \<bar>x\<bar> ^ 12 / 479001600" for x :: real
proof -
  have "(\<Sum>m<12. sin_coeff m * x ^ m)
      = x - x ^ 3 / 6 + x ^ 5 / 120 - x ^ 7 / 5040 + x ^ 9 / 362880 - x ^ 11 / 39916800"
    by (simp add: lessThan_nat_numeral lessThan_Suc sin_coeff_def fact_numeral)
  then show ?thesis using Maclaurin_sin_bound[of x 12] by (simp add: fact_numeral)
qed

lemma cos_poly:
  "\<bar>cos x - (1 - x ^ 2 / 2 + x ^ 4 / 24 - x ^ 6 / 720 + x ^ 8 / 40320 - x ^ 10 / 3628800)\<bar>
     \<le> \<bar>x\<bar> ^ 12 / 479001600" for x :: real
proof -
  have "(\<Sum>m<12. cos_coeff m * x ^ m)
      = 1 - x ^ 2 / 2 + x ^ 4 / 24 - x ^ 6 / 720 + x ^ 8 / 40320 - x ^ 10 / 3628800"
    by (simp add: lessThan_nat_numeral lessThan_Suc cos_coeff_def fact_numeral)
  then show ?thesis using Maclaurin_cos_bound[of x 12] by (simp add: fact_numeral)
qed

lemma sin_lower:
  fixes x :: real
  assumes "c \<le> (x - x ^ 3 / 6 + x ^ 5 / 120 - x ^ 7 / 5040 + x ^ 9 / 362880 - x ^ 11 / 39916800)
                - \<bar>x\<bar> ^ 12 / 479001600"
  shows "c \<le> sin x"
  using sin_poly[of x] assms by linarith

lemma cos_lower:
  fixes x :: real
  assumes "c \<le> (1 - x ^ 2 / 2 + x ^ 4 / 24 - x ^ 6 / 720 + x ^ 8 / 40320 - x ^ 10 / 3628800)
                - \<bar>x\<bar> ^ 12 / 479001600"
  shows "c \<le> cos x"
  using cos_poly[of x] assms by linarith

lemma pi_gt_3: "3 < pi"
proof (rule ccontr)
  assume "\<not> 3 < pi"
  then have "pi \<le> 3" "3 < 2 * pi" using pi_ge_two by simp_all
  then have "sin (3::real) \<le> 0" by (rule sin_le_zero)
  moreover have "1 / 10 \<le> sin (3::real)" by (rule sin_lower) simp
  ultimately show False by simp
qed

lemma sin_interval_min:
  fixes a :: real
  assumes "0 \<le> l" "l \<le> a" "a \<le> h" "h \<le> pi"
  shows "min (sin l) (sin h) \<le> sin a"
proof (cases "a \<le> pi / 2")
  case True
  have "sin l \<le> sin a" using assms True by (intro sin_monotone_2pi_le) simp_all
  then show ?thesis by simp
next
  case False
  have "sin (pi - h) \<le> sin (pi - a)" using assms False by (intro sin_monotone_2pi_le) simp_all
  then show ?thesis by simp
qed

lemma trig_values:
  "99 / 100 \<le> sin (8 / 5 :: real)" "98 / 100 \<le> sin (177 / 100 :: real)"
  "84 / 100 \<le> sin (107 / 50 :: real)" "- 1 / 5 \<le> cos (177 / 100 :: real)"
  by (rule sin_lower cos_lower; simp add: power_divide)+


lemma math_pi_bounds: "31415 / 10000 \<le> math_pi" "math_pi \<le> 31416 / 10000"
  by (simp_all add: math_pi_def)

lemma ulp53_small: "0 \<le> ulp53" "10000 * ulp53 \<le> 1 / 1000000"
  by (simp_all add: ulp53_def)

lemma wave_nonneg:
  assumes "i < 150"
  shows "0 \<le> wave_x i" "0 \<le> wave_y i"
proof -
  have t: "0 \<le> int_truediv (int i) (int num_points)"
    using assms by (intro truediv_unit) (simp_all add: num_points_def)
  have p: "0 \<le> math_pi" using math_pi_range by simp
  have c: "0 \<le> fl (12 / 10)" "0 \<le> fl (11 / 10)" by (rule fl_nonneg, simp)+
  have "0 \<le> fmul (int_truediv (int i) (int num_points)) math_pi"
    unfolding fmul_def using t p by (intro fl_nonneg) simp
  then show x: "0 \<le> wave_x i"
    unfolding wave_x_def fmul_def[of _ "fl (12 / 10)"] using c by (intro fl_nonneg) simp
  show "0 \<le> wave_y i"
    unfolding wave_y_def fmul_def[of _ "fl (11 / 10)"] using x c by (intro fl_nonneg) simp
qed

lemma wave_x_range:
  assumes i: "i < 150" and lo: "lo \<le> i" and hi: "i \<le> hi"
  shows "real lo / 150 * (31415 / 10000) * (6 / 5) - 1 / 1000000 \<le> wave_x i"
    and "wave_x i \<le> real hi / 150 * (31416 / 10000) * (6 / 5) + 1 / 1000000"
proof -
  define r where "r = real i / 150"
  have r: "real lo / 150 \<le> r" "r \<le> real hi / 150" "0 \<le> r" using lo hi by (simp_all add: r_def)
  have 1: "real lo / 150 * (31415 / 10000) \<le> r * math_pi"
    using r math_pi_bounds by (intro mult_mono) simp_all
  have 2: "r * math_pi \<le> real hi / 150 * (31416 / 10000)"
    using r math_pi_bounds by (intro mult_mono) simp_all
  have e: "\<bar>wave_x i - r * math_pi * (6 / 5)\<bar> \<le> 36 * ulp53"
    unfolding r_def using i by (rule wave_error)
  define q where "q = r * math_pi"
  define w where "w = wave_x i"
  define a where "a = real lo / 150"
  define b where "b = real hi / 150"
  have "a * (31415 / 10000) \<le> q" "q \<le> b * (31416 / 10000)" "\<bar>w - q * (6 / 5)\<bar> \<le> 36 * ulp53"
    using 1 2 e by (simp_all add: q_def w_def a_def b_def)
  then have "a * (31415 / 10000) * (6 / 5) - 1 / 1000000 \<le> w \<and>
             w \<le> b * (31416 / 10000) * (6 / 5) + 1 / 1000000"
    using ulp53_small by (simp add: algebra_simps) linarith
  then show "real lo / 150 * (31415 / 10000) * (6 / 5) - 1 / 1000000 \<le> wave_x i"
    and "wave_x i \<le> real hi / 150 * (31416 / 10000) * (6 / 5) + 1 / 1000000"
    by (simp_all add: w_def a_def b_def)
qed

lemma wave_y_upper:
  assumes i: "i < 150" and hi: "i \<le> hi"
  shows "wave_y i \<le> real hi / 150 * (31416 / 10000) * (6 / 5) * (11 / 10) + 1 / 1000000"
proof -
  define r where "r = real i / 150"
  have r: "r \<le> real hi / 150" "0 \<le> r" using hi by (simp_all add: r_def)
  have 2: "r * math_pi \<le> real hi / 150 * (31416 / 10000)"
    using r math_pi_bounds by (intro mult_mono) simp_all
  have e: "\<bar>wave_y i - r * math_pi * (6 / 5) * (11 / 10)\<bar> \<le> 93 * ulp53"
    unfolding r_def using i by (rule wave_error)
  define q where "q = r * math_pi"
  define w where "w = wave_y i"
  define b where "b = real hi / 150"
  have "q \<le> b * (31416 / 10000)" "\<bar>w - q * (6 / 5) * (11 / 10)\<bar> \<le> 93 * ulp53"
    using 2 e by (simp_all add: q_def w_def b_def)
  then have "w \<le> b * (31416 / 10000) * (6 / 5) * (11 / 10) + 1 / 1000000"
    using ulp53_small by (simp add: algebra_simps)
  then show ?thesis by (simp add: w_def b_def)
qed

lemma damped_lower:
  fixes s S d D :: real
  assumes "s \<le> S" "d \<le> D" "D \<le> 1" "0 \<le> d"
  shows "min s (s * d) \<le> S * D"
proof (cases "0 \<le> s")
  case True
  then have "s * d \<le> S * D" using assms by (intro mult_mono) simp_all
  then show ?thesis by simp
next
  case False
  show ?thesis
  proof (cases "0 \<le> S")
    case True
    then have "0 \<le> S * D" using assms by simp
    with False show ?thesis by simp
  next
    case F: False
    have "S * 1 \<le> S * D" using F assms by (intro mult_left_mono_neg) simp_all
    with assms show ?thesis by simp
  qed
qed

lemma sample_below:
  assumes b: "libm_bounded lm" and a: "libm_accurate lm" and i: "i \<le> 64"
  shows "521 \<le> curve_y lm i"
proof -
  define r where "r = real i / 150"
  define w where "w = wave_y i"
  define C where "C = m_cos lm w"
  define D where "D = 1 - r * (1 / 5)"
  have i150: "i < 150" using i by simp
  have r: "0 \<le> r" "r \<le> 64 / 150" using i by (simp_all add: r_def)
  have w0: "0 \<le> w" unfolding w_def using i150 by (rule wave_nonneg)
  have w1: "w \<le> 177 / 100" using wave_y_upper[OF i150 i] by (simp add: w_def)
  have "177 / 100 \<le> pi" using pi_gt_3 by simp
  with w0 w1 have "cos (177 / 100) \<le> cos w" by (intro cos_monotone_0_pi_le)
  then have c: "- 1 / 5 \<le> cos w" using trig_values(4) by linarith
  have "\<bar>C - cos w\<bar> \<le> 1 / 2 ^ 30" using a w0 w1 by (simp add: libm_accurate_def C_def)
  moreover have "(1::real) / 2 ^ 30 \<le> 1 / 100" by simp
  ultimately have C: "- 21 / 100 \<le> C" using c by linarith
  have "min (- 21 / 100) (- 21 / 100 * (4 / 5)) \<le> C * D"
    using C r by (intro damped_lower) (simp_all add: D_def)
  then have CD: "- 21 / 100 \<le> C * D" by simp
  have e: "\<bar>curve_y lm i - (750 - 500 * r + 48 * C * D)\<bar> \<le> 2937 * ulp53"
    using curve_y_error[OF b i150] by (simp add: r_def C_def D_def w_def)
  define p where "p = C * D"
  from e CD have "\<bar>curve_y lm i - (750 - 500 * r + 48 * p)\<bar> \<le> 2937 * ulp53" "- 21 / 100 \<le> p"
    by (simp_all add: p_def mult.assoc)
  then show ?thesis using r ulp53_small by linarith
qed

lemma sample_right:
  assumes b: "libm_bounded lm" and a: "libm_accurate lm" and i: "64 \<le> i" "i < 150"
  shows "521 \<le> curve_x lm i"
proof -
  define r where "r = real i / 150"
  define w where "w = wave_x i"
  define S where "S = m_sin lm w"
  define D where "D = 1 - r * (3 / 10)"
  define p where "p = S * D"
  have w0: "0 \<le> w" unfolding w_def using i(2) by (rule wave_nonneg)
  have "\<bar>curve_x lm i - (200 + 600 * r + 80 * S * D)\<bar> \<le> 3525 * ulp53"
    using curve_x_error[OF b i(2)] by (simp add: r_def S_def D_def w_def)
  then have e: "\<bar>curve_x lm i - (200 + 600 * r + 80 * p)\<bar> \<le> 3525 * ulp53"
    by (simp add: p_def mult.assoc)
  have D1: "D \<le> 1" using i by (simp add: D_def r_def)
  have acc: "\<bar>S - sin w\<bar> \<le> 1 / 100" if "w \<le> 5"
  proof -
    have "\<bar>S - sin w\<bar> \<le> 1 / 2 ^ 30" using a w0 that by (simp add: libm_accurate_def S_def)
    moreover have "(1::real) / 2 ^ 30 \<le> 1 / 100" by simp
    ultimately show ?thesis by linarith
  qed
  have pi3: "3 < pi" by (rule pi_gt_3)
  consider "i \<le> 70" | "71 \<le> i" "i \<le> 85" | "86 \<le> i" "i \<le> 100" | "101 \<le> i" by linarith
  then show ?thesis
  proof cases
    case 1
    have r: "64 / 150 \<le> r" "r \<le> 70 / 150" using i 1 by (simp_all add: r_def)
    have w: "8 / 5 \<le> w" "w \<le> 177 / 100"
      using wave_x_range[OF i(2) i(1) 1] by (simp_all add: w_def)
    have "min (sin (8 / 5)) (sin (177 / 100)) \<le> sin w"
      using w pi3 by (intro sin_interval_min) simp_all
    then have "98 / 100 \<le> sin w" using trig_values(1,2) by linarith
    moreover have "w \<le> 5" using w by simp
    ultimately have S: "97 / 100 \<le> S" using acc by linarith
    have "min (97 / 100) (97 / 100 * (86 / 100)) \<le> S * D"
      using S r D1 by (intro damped_lower) (simp_all add: D_def)
    then have "8342 / 10000 \<le> p" by (simp add: p_def)
    then show ?thesis using e r ulp53_small by linarith
  next
    case 2
    have r: "71 / 150 \<le> r" "r \<le> 85 / 150" using 2 by (simp_all add: r_def)
    have w: "177 / 100 \<le> w" "w \<le> 107 / 50"
      using wave_x_range[OF i(2) 2] by (simp_all add: w_def)
    have "min (sin (177 / 100)) (sin (107 / 50)) \<le> sin w"
      using w pi3 by (intro sin_interval_min) simp_all
    then have "84 / 100 \<le> sin w" using trig_values(2,3) by linarith
    moreover have "w \<le> 5" using w by simp
    ultimately have S: "83 / 100 \<le> S" using acc by linarith
    have "min (83 / 100) (83 / 100 * (83 / 100)) \<le> S * D"
      using S r D1 by (intro damped_lower) (simp_all add: D_def)
    then have "6889 / 10000 \<le> p" by (simp add: p_def)
    then show ?thesis using e r ulp53_small by linarith
  next
    case 3
    have r: "86 / 150 \<le> r" "r \<le> 100 / 150" using 3 by (simp_all add: r_def)
    have w: "w \<le> 3" using wave_x_range(2)[OF i(2) 3] by (simp add: w_def)
    have "0 \<le> sin w" using w0 w pi3 by (intro sin_ge_zero) simp_all
    moreover have "w \<le> 5" using w by simp
    ultimately have S: "- 1 / 100 \<le> S" using acc by linarith
    have "min (- 1 / 100) (- 1 / 100 * (8 / 10)) \<le> S * D"
      using S r D1 by (intro damped_lower) (simp_all add: D_def)
    then have "- 1 / 100 \<le> p" by (simp add: p_def)
    then show ?thesis using e r ulp53_small by linarith
  next
    case 4
    have r: "101 / 150 \<le> r" "r \<le> 1" using 4 i by (simp_all add: r_def)
    have S: "- 1 \<le> S" using b unfolding libm_bounded_def S_def
      by (metis abs_le_D2 minus_le_iff)
    have "min (- 1) (- 1 * (7 / 10)) \<le> S * D"
      using S r D1 by (intro damped_lower) (simp_all add: D_def)
    then have "- 1 \<le> p" by (simp add: p_def)
    then show ?thesis using e r ulp53_small by linarith
  qed
qed


section \<open>The pixels at the centre and in the corners\<close>

lemma getpixel_ellipse:
  assumes "y < length (im_data img)" "x < length (im_data img ! y)"
  shows "getpixel (ellipse bb c img) (x, y)
         = (if in_ellipse bb (int x, int y) then c else getpixel img (x, y))"
  using assms by (simp add: getpixel_def ellipse_def nth_enumerate_eq)

lemma well_formed_index:
  assumes "well_formed sz img" "int x < sz" "int y < sz"
  shows "y < length (im_data img)" "x < length (im_data img ! y)"
proof -
  show y: "y < length (im_data img)" using assms by (simp add: well_formed_def)
  then have "length (im_data img ! y) = nat sz"
    using assms(1) by (simp add: well_formed_def list_all_length)
  then show "x < length (im_data img ! y)" using assms by simp
qed

lemma getpixel_fold_outside:
  assumes "well_formed sz img" "int x < sz" "int y < sz"
    and "\<forall>k\<in>set ks. \<not> in_ellipse (f k) (int x, int y)"
  shows "getpixel (fold (\<lambda>k. ellipse (f k) (g k)) ks img) (x, y) = getpixel img (x, y)"
  using assms
proof (induction ks arbitrary: img)
  case Nil
  then show ?case by simp
next
  case (Cons k ks)
  have "well_formed sz (ellipse (f k) (g k) img)" using Cons.prems(1) by (rule well_formed_ellipse)
  then have "getpixel (fold (\<lambda>k. ellipse (f k) (g k)) ks (ellipse (f k) (g k) img)) (x, y)
      = getpixel (ellipse (f k) (g k) img) (x, y)"
    using Cons.prems by (intro Cons.IH) simp_all
  also have "\<dots> = getpixel img (x, y)"
    using well_formed_index[OF Cons.prems(1-3)] Cons.prems(4) by (simp add: getpixel_ellipse)
  finally show ?case by simp
qed

lemma max_radius_1024: "max_radius_of 1024 = 737"
  by (simp add: max_radius_of_def fmul_def float_of_int_def py_int_def fl_eval)

lemma layer_radius_737:
  "layer_radius 737 0 = 737" "layer_radius 737 1 = 712" "layer_radius 737 (Suc 0) = 712"
  by (simp_all add: layer_radius_def int_truediv_def num_layers_def fmul_def fsub_def
      float_of_int_def py_int_def fl_eval)

lemma layer_color_values: "layer_color 0 = (99, 102, 241)" "layer_color 29 = (137, 92, 245)"
  by (simp_all add: layer_color_def int_truediv_def num_layers_def fmul_def fadd_def
      float_of_int_def py_int_def Let_def fl_eval)


lemma layers_1024:
  shows "i < 30 \<Longrightarrow> 0 < layer_radius 737 i"
    and "1 \<le> i \<Longrightarrow> i < 30 \<Longrightarrow> layer_radius 737 i \<le> 712"
proof -
  show "0 < layer_radius 737 i" if "i < 30"
  proof (cases "i = 0")
    case True then show ?thesis by (simp add: layer_radius_737)
  next
    case False
    then show ?thesis using layer_radius_decreasing(2)[of 737 0 i] that by simp
  qed
  show "layer_radius 737 i \<le> 712" if "1 \<le> i" "i < 30"
  proof (cases "i = 1")
    case True then show ?thesis by (simp add: layer_radius_737)
  next
    case False
    then have "layer_radius 737 i < layer_radius 737 1"
      using layer_radius_decreasing(1)[of 737 1 i] that by simp
    then show ?thesis by (simp add: layer_radius_737)
  qed
qed

lemma paint_1024:
  "paint lm 1024 img =
     fold (\<lambda>bb. ellipse bb white) (curve_discs lm 1024)
       (fold (\<lambda>i. ellipse (layer_box 512 737 i) (layer_color i)) [0..<30] img)"
proof -
  have "list_all (\<lambda>i. 0 < layer_radius 737 i) [0..<30]"
    unfolding list_all_iff using layers_1024(1) by simp
  then have "background 512 737 [0..<30] img
      = fold (\<lambda>i. ellipse (layer_box 512 737 i) (layer_color i)) [0..<30] img"
    by (rule background_all_drawn)
  then show ?thesis
    using draw_elegant_curve_discs[of lm 1024]
    by (simp add: paint_def Let_def max_radius_1024 num_layers_def)
qed

lemma curve_discs_1024:
  assumes b: "libm_bounded lm" and a: "libm_accurate lm" and bb: "bb \<in> set (curve_discs lm 1024)"
  shows "\<exists>w p. bb = disc w p \<and> w \<in> {9, 12, 16} \<and> 120 \<le> fst p \<and> fst p \<le> 880 \<and>
           202 \<le> snd p \<and> snd p \<le> 798 \<and> (521 \<le> fst p \<or> 521 \<le> snd p)"
proof -
  let ?pts = "curve_points lm 1"
  have pt: "120 \<le> fst (?pts ! i) \<and> fst (?pts ! i) \<le> 880 \<and>
            202 \<le> snd (?pts ! i) \<and> snd (?pts ! i) \<le> 798" if "i < 150" for i
    using curve_point_range[OF b that] that by (simp add: nth_curve_points)
  have below: "521 \<le> snd (?pts ! i)" if "i \<le> 64" for i
  proof -
    have "real_of_int 521 \<le> curve_y lm i" "curve_y lm i \<le> real_of_int 798"
      using sample_below[OF b a that] curve_value_range[OF b, of i] that by simp_all
    from py_int_range(1)[OF this] show ?thesis
      using that by (simp add: nth_curve_points curve_point_eq fmul_def)
  qed
  have right: "521 \<le> fst (?pts ! i)" if "64 \<le> i" "i < 150" for i
  proof -
    have "real_of_int 521 \<le> curve_x lm i" "curve_x lm i \<le> real_of_int 880"
      using sample_right[OF b a that] curve_value_range[OF b, of i] that by simp_all
    from py_int_range(1)[OF this] show ?thesis
      using that by (simp add: nth_curve_points curve_point_eq fmul_def)
  qed
  from bb consider "bb \<in> set (sample_discs 16 ?pts)"
    | i where "i < 149" "bb \<in> set (segment_discs 16 ?pts i)"
    by (auto simp: curve_discs_def Let_def scale_1024 line_width_1024)
  then show ?thesis
  proof cases
    case 1
    then obtain i where i: "i < 150"
      and bb: "bb = disc (current_width 16 150 (of_nat i)) (?pts ! i)"
      by (auto simp: sample_discs_def)
    have "521 \<le> fst (?pts ! i) \<or> 521 \<le> snd (?pts ! i)"
      using below[of i] right[of i] i by linarith
    then show ?thesis using bb pt[OF i] current_width_16 by blast
  next
    case 2
    define p1 where "p1 = ?pts ! i"
    define p2 where "p2 = ?pts ! (i + 1)"
    define steps where "steps = segment_steps p1 p2"
    from 2 obtain j where j: "1 \<le> j" "j < nat steps"
      and bb: "bb = disc (substep_width 16 150 i steps j) (substep_point p1 p2 (int_truediv (int j) steps))"
      by (auto simp: segment_discs_def Let_def p1_def p2_def steps_def)
    define q where "q = substep_point p1 p2 (int_truediv (int j) steps)"
    have st: "8 \<le> steps" unfolding steps_def by (rule segment_steps_ge_8)
    have t: "0 \<le> int_truediv (int j) steps" "int_truediv (int j) steps \<le> 1"
      using j st by (intro truediv_unit; simp)+
    obtain x1 y1 where p1: "p1 = (x1, y1)" by (cases p1)
    obtain x2 y2 where p2: "p2 = (x2, y2)" by (cases p2)
    have e1: "?pts ! i = (x1, y1)" using p1 by (simp add: p1_def)
    then have r1: "120 \<le> x1" "x1 \<le> 880" "202 \<le> y1" "y1 \<le> 798"
      using pt[of i] 2(1) by simp_all
    have e2: "?pts ! Suc i = (x2, y2)" using p2 by (simp add: p2_def)
    then have r2: "120 \<le> x2" "x2 \<le> 880" "202 \<le> y2" "y2 \<le> 798"
      using pt[of "Suc i"] 2(1) by simp_all
    have x: "120 \<le> fst q" "fst q \<le> 880"
      unfolding q_def p1 p2 substep_point_def prod.case fst_conv
      using substep_coordinate_range[OF r1(1,2) r2(1,2) _ _ t] by simp_all
    have y: "202 \<le> snd q" "snd q \<le> 798"
      unfolding q_def p1 p2 substep_point_def prod.case snd_conv
      using substep_coordinate_range[OF r1(3,4) r2(3,4) _ _ t] by simp_all
    have "521 \<le> fst q \<or> 521 \<le> snd q"
    proof (cases "i \<le> 63")
      case True
      have "521 \<le> y1" "521 \<le> y2" using below[of i] below[of "Suc i"] True e1 e2 by simp_all
      then have "521 \<le> snd q"
        unfolding q_def p1 p2 substep_point_def prod.case snd_conv
        using substep_coordinate_range(1)[OF _ r1(4) _ r2(4) _ _ t, of 521] by simp
      then show ?thesis by simp
    next
      case False
      have "521 \<le> x1" "521 \<le> x2" using right[of i] right[of "Suc i"] False 2(1) e1 e2 by simp_all
      then have "521 \<le> fst q"
        unfolding q_def p1 p2 substep_point_def prod.case fst_conv
        using substep_coordinate_range(1)[OF _ r1(2) _ r2(2) _ _ t, of 521] by simp
      then show ?thesis by simp
    qed
    moreover have "substep_width 16 150 i steps j \<in> {9, 12, 16}"
      unfolding substep_width_def by (rule current_width_16)
    ultimately show ?thesis using bb x y unfolding q_def by blast
  qed
qed

lemma disc_misses:
  assumes "w \<in> {9, 12, 16}" "120 \<le> fst p" "fst p \<le> 880" "202 \<le> snd p" "snd p \<le> 798"
    and "521 \<le> fst p \<or> 521 \<le> snd p"
  shows "\<not> in_ellipse (disc w p) (512, 512)"
    and "c \<in> set (corners 1024) \<Longrightarrow> \<not> in_ellipse (disc w p) c"
  using assms by (cases p; auto simp: in_ellipse_def disc_def corners_def)+


lemma corner_outside_layers:
  assumes "1 \<le> i" "i < 30" "c \<in> set (corners 1024)"
  shows "\<not> in_ellipse (layer_box 512 737 i) c"
proof -
  define r where "r = layer_radius 737 i"
  have r: "0 < r" "r \<le> 712" using layers_1024[of i] assms by (simp_all add: r_def)
  then have "r\<^sup>2 \<le> 712\<^sup>2" by (intro power_mono) simp_all
  then have r2: "r\<^sup>2 \<le> 506944" by simp
  obtain px py where c: "c = (px, py)" by (cases c)
  have "522242 \<le> (px - 512)\<^sup>2 + (py - 512)\<^sup>2"
    using assms(3) unfolding c corners_def by auto
  with r2 have "\<not> (px - 512)\<^sup>2 + (py - 512)\<^sup>2 \<le> r\<^sup>2" by linarith
  then show ?thesis
    unfolding c layer_box_def Let_def r_def[symmetric]
    by (simp only: in_circle[OF r(1)] not_False_eq_True)
qed

lemma blank_pixel:
  assumes "x < n" "y < n"
  shows "getpixel \<lparr>im_mode = m, im_size = s, im_data = replicate n (replicate n c)\<rparr> (x, y) = c"
  using assms by (simp add: getpixel_def)

lemma well_formed_blank:
  "well_formed 1024 \<lparr>im_mode = RGB, im_size = (1024, 1024),
      im_data = replicate (nat 1024) (replicate (nat 1024) c)\<rparr>"
  by (simp add: well_formed_def list_all_iff)

lemma rendered_pixels:
  assumes b: "libm_bounded lm" and a: "libm_accurate lm"
  defines "img0 \<equiv> \<lparr>im_mode = RGB, im_size = (1024, 1024),
      im_data = replicate (nat 1024) (replicate (nat 1024) (99, 102, 241))\<rparr>"
  shows "getpixel (paint lm 1024 img0) (512, 512) = layer_color 29"
    and "(int x, int y) \<in> set (corners 1024) \<Longrightarrow> getpixel (paint lm 1024 img0) (x, y) = (99, 102, 241)"
proof -
  let ?layer = "\<lambda>i. ellipse (layer_box 512 737 i) (layer_color i)"
  define bg where "bg = fold ?layer [0..<30] img0"
  have wf0: "well_formed 1024 img0" unfolding img0_def by (rule well_formed_blank)
  have wfl: "well_formed 1024 (fold ?layer ks im)" if "well_formed 1024 im" for ks im
    using that by (rule fold_invariant) (rule well_formed_ellipse)
  have wfbg: "well_formed 1024 bg" unfolding bg_def using wf0 by (rule wfl)
  have p: "paint lm 1024 img0 = fold (\<lambda>bb. ellipse bb white) (curve_discs lm 1024) bg"
    by (simp add: paint_1024 bg_def)
  have miss: "\<not> in_ellipse bb (512, 512)" "c \<in> set (corners 1024) \<Longrightarrow> \<not> in_ellipse bb c"
    if "bb \<in> set (curve_discs lm 1024)" for bb c
  proof -
    from curve_discs_1024[OF b a that] obtain w p where
      bb: "bb = disc w p" and w: "w \<in> {9, 12, 16}"
      and r: "120 \<le> fst p" "fst p \<le> 880" "202 \<le> snd p" "snd p \<le> 798"
      and m: "521 \<le> fst p \<or> 521 \<le> snd p" by blast
    show "\<not> in_ellipse bb (512, 512)" unfolding bb using w r m by (rule disc_misses(1))
    show "\<not> in_ellipse bb c" if "c \<in> set (corners 1024)"
      unfolding bb using w r m that by (rule disc_misses(2))
  qed
  have "getpixel (paint lm 1024 img0) (512, 512) = getpixel bg (512, 512)"
    unfolding p using wfbg miss(1) by (intro getpixel_fold_outside[where sz = 1024]) simp_all
  also have "\<dots> = layer_color 29"
  proof -
    have "[0..<30] = [0..<29] @ [29::nat]" by (simp add: upt_rec)
    then have e: "bg = ?layer 29 (fold ?layer [0..<29] img0)" by (simp add: bg_def)
    have wf: "well_formed 1024 (fold ?layer [0..<29] img0)" using wf0 by (rule wfl)
    have r: "0 < layer_radius 737 29" by (rule layers_1024(1)) simp
    have "in_ellipse (layer_box 512 737 29) (512, 512)"
      unfolding layer_box_def Let_def by (simp only: in_circle[OF r]) simp
    then show ?thesis
      unfolding e using well_formed_index[OF wf, of 512 512] by (simp add: getpixel_ellipse)
  qed
  finally show "getpixel (paint lm 1024 img0) (512, 512) = layer_color 29" .
  show "getpixel (paint lm 1024 img0) (x, y) = (99, 102, 241)"
    if c: "(int x, int y) \<in> set (corners 1024)"
  proof -
    have xy: "int x < 1024" "int y < 1024" using c by (auto simp: corners_def)
    have "getpixel (paint lm 1024 img0) (x, y) = getpixel bg (x, y)"
      unfolding p using wfbg xy miss(2)[OF _ c]
      by (intro getpixel_fold_outside[where sz = 1024]) simp_all
    also have "\<dots> = getpixel (?layer 0 img0) (x, y)"
    proof -
      have "[0..<30] = 0 # [1..<30]" by (simp add: upt_rec)
      then have e: "bg = fold ?layer [1..<30] (?layer 0 img0)" by (simp add: bg_def)
      have wf: "well_formed 1024 (?layer 0 img0)" using wf0 by (rule well_formed_ellipse)
      show ?thesis unfolding e using wf xy corner_outside_layers[OF _ _ c]
        by (intro getpixel_fold_outside[where sz = 1024]) simp_all
    qed
    also have "\<dots> = (99, 102, 241)"
    proof -
      have "getpixel img0 (x, y) = (99, 102, 241)"
        unfolding img0_def using xy by (intro blank_pixel) simp_all
      then show ?thesis
        using well_formed_index[OF wf0 xy] by (simp add: getpixel_ellipse layer_color_values)
    qed
    finally show ?thesis .
  qed
qed

section \<open>Runs of the script\<close>















section \<open>The layers that are drawn\<close>

lemma background_takeWhile:
  "background c M ls img =
     fold (\<lambda>i. ellipse (layer_box c M i) (layer_color i))
       (takeWhile (\<lambda>i. 0 < layer_radius M i) ls) img"
  by (induction ls arbitrary: img) (simp_all add: Let_def layer_box_def)

lemma takeWhile_upt:
  assumes "m \<le> n" "\<And>k. k < m \<Longrightarrow> P k" "m < n \<Longrightarrow> \<not> P m"
  shows "takeWhile P [0..<n] = [0..<m]"
proof -
  have "[0..<n] = [0..<m] @ [m..<n]" using upt_add_eq_append[of 0 m "n - m"] assms(1) by simp
  moreover have "takeWhile P [m..<n] = []"
  proof (cases "m < n")
    case True
    then have "[m..<n] = m # [Suc m..<n]" by (simp add: upt_rec)
    then show ?thesis using assms(3)[OF True] by simp
  qed simp
  moreover have "takeWhile P ([0..<m] @ [m..<n]) = [0..<m] @ takeWhile P [m..<n]"
    by (rule takeWhile_append2) (simp add: assms(2))
  ultimately show ?thesis by (simp only: append_Nil2)
qed

lemma layer_radii_29:
  "map (layer_radius 29) [0..<30] =
     [29, 28, 27, 26, 25, 24, 23, 22, 21, 20, 19, 18, 17, 16, 15, 14, 13, 12, 11, 10,
      9, 8, 7, 6, 5, 4, 3, 2, 1, 0]"
  by (simp add: upt_rec layer_radius_def int_truediv_def num_layers_def fmul_def fsub_def
      float_of_int_def py_int_def fl_eval)

lemma layer_radii_30:
  "map (layer_radius 30) [0..<30] =
     [30, 29, 28, 27, 26, 25, 24, 23, 22, 21, 20, 19, 18, 17, 16, 15, 14, 13, 12, 11,
      10, 9, 8, 6, 5, 4, 3, 2, 1, 0]"
  by (simp add: upt_rec layer_radius_def int_truediv_def num_layers_def fmul_def fsub_def
      float_of_int_def py_int_def fl_eval)


lemma layer_radius_29: "k < 30 \<Longrightarrow> layer_radius 29 k = 29 - int k"
proof -
  assume k: "k < 30"
  have "map (layer_radius 29) [0..<30] = map (\<lambda>k. 29 - int k) [0..<30]"
    unfolding layer_radii_29 by (simp add: upt_rec)
  then have "\<forall>x\<in>set [0..<30]. layer_radius 29 x = 29 - int x" by (simp only: map_eq_conv)
  then show ?thesis using k by simp
qed

lemma layer_radius_30:
  "k < 30 \<Longrightarrow> layer_radius 30 k = (if k < 23 then 30 - int k else 29 - int k)"
proof -
  assume k: "k < 30"
  have "map (layer_radius 30) [0..<30] = map (\<lambda>k. if k < 23 then 30 - int k else 29 - int k) [0..<30]"
    unfolding layer_radii_30 by (simp add: upt_rec)
  then have "\<forall>x\<in>set [0..<30]. layer_radius 30 x = (if x < 23 then 30 - int x else 29 - int x)"
    by (simp only: map_eq_conv)
  then show ?thesis using k by simp
qed

lemma max_radius_ge_29:
  assumes "41 \<le> sz" shows "29 \<le> max_radius_of sz"
proof -
  have f: "of_int 41 \<le> float_of_int sz"
    unfolding float_of_int_def using assms by (intro fl_ge_int) simp_all
  have "real_of_int 29 \<le> 41 * fl (72 / 100)" by (simp add: lit_0_72)
  also have "\<dots> \<le> float_of_int sz * fl (72 / 100)"
    using f by (intro mult_right_mono) (simp_all add: lit_0_72)
  finally have "of_int 29 \<le> fmul (float_of_int sz) (fl (72 / 100))"
    unfolding fmul_def by (intro fl_ge_int) simp_all
  then show ?thesis by (simp add: max_radius_of_def py_int_def le_floor_iff)
qed

lemma py_int_below: "x < 1 \<Longrightarrow> py_int x \<le> 0"
  by (auto simp: py_int_def floor_le_iff ceiling_le_iff)

lemma py_int_below_2: "x < 2 \<Longrightarrow> py_int x \<le> 1"
  by (auto simp: py_int_def floor_le_iff ceiling_le_iff)

lemma max_radius_le_1:
  assumes "sz \<le> 2" shows "max_radius_of sz \<le> 1"
proof -
  have f: "float_of_int sz \<le> of_int 2"
    unfolding float_of_int_def using assms by (intro fl_le_int) simp_all
  have "float_of_int sz * fl (72 / 100) \<le> 2 * fl (72 / 100)"
    using f by (intro mult_right_mono) (simp_all add: lit_0_72)
  also have "\<dots> \<le> 3 / 2" by (simp add: lit_0_72)
  finally have "fl (float_of_int sz * fl (72 / 100)) \<le> 3 / 2"
    by (intro fl_le_repr) (simp_all add: fl_eval)
  then have "fmul (float_of_int sz) (fl (72 / 100)) < 2" by (simp add: fmul_def)
  then show ?thesis unfolding max_radius_of_def by (rule py_int_below_2)
qed

lemma second_layer_small:
  assumes "M \<le> 1" shows "layer_radius M 1 \<le> 0"
proof -
  define d where "d = fsub 1 (int_truediv (int 1) (int num_layers))"
  have d: "d = 8706959279582959 / 2 ^ 53"
    by (simp add: d_def fsub_def int_truediv_def num_layers_def fl_eval)
  have fd: "fl d = d" by (simp add: d_def fsub_def)
  have f: "float_of_int M \<le> of_int 1"
    unfolding float_of_int_def using assms by (intro fl_le_int) simp_all
  have "float_of_int M * d \<le> 1 * d" using f by (intro mult_right_mono) (simp_all add: d)
  then have "fl (float_of_int M * d) \<le> d" using fd by (intro fl_le_repr) simp_all
  then have "fmul (float_of_int M) d < 1" by (simp add: fmul_def d)
  then show ?thesis unfolding layer_radius_def d_def by (rule py_int_below)
qed

lemma drawn_layers_cases:
  assumes "sz < 3 \<or> 40 < sz"
  shows "(length (drawn_layers (max_radius_of sz)) \<le> 1 \<or>
          drawn_layers (max_radius_of sz) = [0..<29] \<or>
          drawn_layers (max_radius_of sz) = [0..<30]) \<and>
         (\<forall>i j. i < j \<and> j < length (drawn_layers (max_radius_of sz)) \<longrightarrow>
            layer_radius (max_radius_of sz) j < layer_radius (max_radius_of sz) i \<and>
            0 < layer_radius (max_radius_of sz) j)"
proof -
  define M where "M = max_radius_of sz"
  consider "M \<le> 1" | "M = 29" | "M = 30" | "31 \<le> M"
    using assms max_radius_le_1[of sz] max_radius_ge_29[of sz] unfolding M_def by linarith
  then have "(length (drawn_layers M) \<le> 1 \<or> drawn_layers M = [0..<29] \<or>
          drawn_layers M = [0..<30]) \<and>
         (\<forall>i j. i < j \<and> j < length (drawn_layers M) \<longrightarrow>
            layer_radius M j < layer_radius M i \<and> 0 < layer_radius M j)"
  proof cases
    case 1
    have "\<not> 0 < layer_radius M 1" using second_layer_small[OF 1] by simp
    then have "takeWhile (\<lambda>i. 0 < layer_radius M i) (0 # 1 # [2..<30]) =
        (if 0 < layer_radius M 0 then [0] else [])" by simp
    moreover have "[0..<30] = 0 # 1 # [2..<30]" by (simp add: upt_rec)
    ultimately have "length (drawn_layers M) \<le> 1"
      by (simp add: drawn_layers_def num_layers_def)
    then show ?thesis by auto
  next
    case 2
    have "takeWhile (\<lambda>i. 0 < layer_radius 29 i) [0..<30] = [0..<29]"
      by (rule takeWhile_upt) (simp_all add: layer_radius_29)
    then have d: "drawn_layers 29 = [0..<29]" by (simp add: drawn_layers_def num_layers_def)
    show ?thesis unfolding 2 d by (auto simp: layer_radius_29)
  next
    case 3
    have "takeWhile (\<lambda>i. 0 < layer_radius 30 i) [0..<30] = [0..<29]"
      by (rule takeWhile_upt) (simp_all add: layer_radius_30)
    then have d: "drawn_layers 30 = [0..<29]" by (simp add: drawn_layers_def num_layers_def)
    show ?thesis unfolding 3 d by (auto simp: layer_radius_30)
  next
    case 4
    have pos: "0 < layer_radius M k" if "k < 30" for k
    proof (cases "k = 0")
      case True
      have "0 < layer_radius M 1" using layer_radius_decreasing(2)[OF 4, of 0 1] by simp
      also have "\<dots> < layer_radius M 0" using layer_radius_decreasing(1)[OF 4, of 0 1] by simp
      finally show ?thesis using True by simp
    next
      case False
      then show ?thesis using layer_radius_decreasing(2)[OF 4, of 0 k] that by simp
    qed
    have "takeWhile (\<lambda>i. 0 < layer_radius M i) [0..<30] = [0..<30]"
      by (rule takeWhile_upt) (simp_all add: pos)
    then have d: "drawn_layers M = [0..<30]" by (simp add: drawn_layers_def num_layers_def)
    show ?thesis unfolding d using layer_radius_decreasing[OF 4] by auto
  qed
  then show ?thesis unfolding M_def by blast
qed


lemma drawn_layers_prefix:
  "drawn_layers M = [0..<length (drawn_layers M)]" "length (drawn_layers M) \<le> 30"
proof -
  let ?P = "\<lambda>i. 0 < layer_radius M i"
  have l: "length (takeWhile ?P [0..<30]) \<le> 30"
    using length_takeWhile_le[of ?P "[0..<30]"] by simp
  have "takeWhile ?P [0..<30] = take (length (takeWhile ?P [0..<30])) [0..<30]"
    by (rule takeWhile_eq_take)
  also have "\<dots> = [0..<length (takeWhile ?P [0..<30])]" using l by (simp add: take_upt)
  finally show "drawn_layers M = [0..<length (drawn_layers M)]"
    by (simp add: drawn_layers_def num_layers_def)
  show "length (drawn_layers M) \<le> 30" using l by (simp add: drawn_layers_def num_layers_def)
qed

lemma max_radius_41: "max_radius_of 41 = 29"
  by (simp add: max_radius_of_def fmul_def float_of_int_def py_int_def fl_eval)

lemma max_radius_40: "max_radius_of 40 = 28"
  by (simp add: max_radius_of_def fmul_def float_of_int_def py_int_def fl_eval)

lemma drawn_layers_29: "drawn_layers 29 = [0..<29]"
proof -
  have "takeWhile (\<lambda>i. 0 < layer_radius 29 i) [0..<30] = [0..<29]"
    by (rule takeWhile_upt) (simp_all add: layer_radius_29)
  then show ?thesis by (simp add: drawn_layers_def num_layers_def)
qed

lemma radii_repeat_40:
  "layer_radius (max_radius_of 40) 14 = 14" "layer_radius (max_radius_of 40) 15 = 14"
  by (simp_all add: max_radius_40 layer_radius_def int_truediv_def num_layers_def fmul_def
      fsub_def float_of_int_def py_int_def fl_eval)

section \<open>The width of a sub-step\<close>

lemma segment_steps_bound:
  assumes dx: "\<bar>x2 - x1\<bar> < 2 ^ 23" and dy: "\<bar>y2 - y1\<bar> < 2 ^ 23"
  shows "segment_steps (x1, y1) (x2, y2) \<le> 2 ^ 22"
proof -
  define n where "n = (x2 - x1)\<^sup>2 + (y2 - y1)\<^sup>2"
  have "\<bar>x2 - x1\<bar>\<^sup>2 < (2 ^ 23)\<^sup>2" using dx by (intro power_strict_mono) simp_all
  moreover have "\<bar>y2 - y1\<bar>\<^sup>2 < (2 ^ 23)\<^sup>2" using dy by (intro power_strict_mono) simp_all
  ultimately have n1: "n < 140737488355328" by (simp add: n_def)
  have "real_of_int n < real_of_int 140737488355328" using n1 by (simp only: of_int_less_iff)
  then have "real_of_int n < 16777216\<^sup>2" by simp
  then have "sqrt (real_of_int n) < sqrt (16777216\<^sup>2)" by (simp only: real_sqrt_less_iff)
  then have "sqrt (real_of_int n) / 4 < 4194304" by simp
  then have "\<lfloor>sqrt (real_of_int n) / 4\<rfloor> < 4194304" by (simp add: floor_less_iff)
  then show ?thesis
    unfolding segment_steps_exact[OF assms] n_def[symmetric] by simp
qed

lemma point_idx_strict:
  assumes i: "i < 256" and j: "1 \<le> j" "int j < steps" and st: "steps \<le> 2 ^ 40"
  shows "real i < fadd (float_of_int (int i)) (int_truediv (int j) steps)"
    and "fadd (float_of_int (int i)) (int_truediv (int j) steps) < real i + 1"
proof -
  define e :: real where "e = 1 / 2 ^ 40"
  define t where "t = int_truediv (int j) steps"
  have e: "0 < e" "e < 1" by (simp_all add: e_def)
  have s0: "0 < real_of_int steps" using j by simp
  have s1: "real_of_int steps \<le> 2 ^ 40"
  proof -
    have "real_of_int steps \<le> real_of_int (2 ^ 40)" using st by (simp only: of_int_le_iff)
    then show ?thesis by simp
  qed
  have inv: "e \<le> 1 / real_of_int steps"
    unfolding e_def using s0 s1 by (intro divide_left_mono) simp_all
  have "1 / real_of_int steps \<le> real j / real_of_int steps"
    using j s0 by (intro divide_right_mono) simp_all
  with inv have q0: "e \<le> real j / real_of_int steps" by linarith
  have "real j \<le> real_of_int steps - 1"
  proof -
    have "int j \<le> steps - 1" using j by simp
    then have "real_of_int (int j) \<le> real_of_int (steps - 1)" by (simp only: of_int_le_iff)
    then show ?thesis by simp
  qed
  then have "real j / real_of_int steps \<le> (real_of_int steps - 1) / real_of_int steps"
    using s0 by (intro divide_right_mono) simp_all
  also have "\<dots> = 1 - 1 / real_of_int steps" using s0 by (simp add: field_simps)
  finally have q1: "real j / real_of_int steps \<le> 1 - e" using inv by linarith
  have r0: "fl e = e" using fl_representable[of 1 "- 40"] by (simp add: e_def pow2_numeral)
  have r1: "fl (1 - e) = 1 - e"
    using fl_representable[of "2 ^ 40 - 1" "- 40"] by (simp add: e_def pow2_numeral field_simps)
  have t0: "e \<le> t" unfolding t_def int_truediv_def using q0 r0 by (intro fl_ge_repr) simp_all
  have t1: "t \<le> 1 - e" unfolding t_def int_truediv_def using q1 r1 by (intro fl_le_repr) simp_all
  have "\<bar>int i\<bar> < 2 ^ 53" using i by simp
  then have fi: "float_of_int (int i) = real i" by (simp add: float_of_int_exact)
  have m: "\<bar>int i * 2 ^ 40 + 1\<bar> < 2 ^ 53" "\<bar>(int i + 1) * 2 ^ 40 - 1\<bar> < 2 ^ 53" using i by simp_all
  have r2: "fl (real i + e) = real i + e"
    using fl_representable[OF m(1), of "- 40"] by (simp add: e_def pow2_numeral field_simps)
  have r3: "fl (real i + 1 - e) = real i + 1 - e"
    using fl_representable[OF m(2), of "- 40"] by (simp add: e_def pow2_numeral field_simps)
  have "real i + e \<le> fl (real i + t)" using t0 r2 by (intro fl_ge_repr) simp_all
  then show "real i < fadd (float_of_int (int i)) (int_truediv (int j) steps)"
    using e by (simp add: fadd_def fi t_def)
  have "fl (real i + t) \<le> real i + 1 - e" using t1 r3 by (intro fl_le_repr) simp_all
  then show "fadd (float_of_int (int i)) (int_truediv (int j) steps) < real i + 1"
    using e by (simp add: fadd_def fi t_def)
qed

lemma fraction_strict:
  assumes "1 \<le> j" "int j < steps"
  shows "real i < real i + real j / real_of_int steps" "real i + real j / real_of_int steps < real i + 1"
proof -
  have s0: "0 < real_of_int steps" using assms by simp
  have "0 < real j / real_of_int steps" using assms s0 by simp
  then show "real i < real i + real j / real_of_int steps" by simp
  have "real_of_int (int j) < real_of_int steps" using assms(2) by (simp only: of_int_less_iff)
  then have "real j / real_of_int steps < 1" using s0 by simp
  then show "real i + real j / real_of_int steps < real i + 1" by simp
qed

lemma current_width_inside:
  assumes "real i < x" "x < real i + 1"
  shows "current_width lw 150 x =
           (if i < 10 \<or> 140 \<le> i then py_int (fmul (float_of_int lw) (fl (6 / 10)))
            else if i < 20 \<or> 130 \<le> i then py_int (fmul (float_of_int lw) (fl (8 / 10)))
            else lw)"
proof -
  have a: "x < 10 \<longleftrightarrow> i < 10" "x < 20 \<longleftrightarrow> i < 20" "140 < x \<longleftrightarrow> 140 \<le> i" "130 < x \<longleftrightarrow> 130 \<le> i"
    using assms by linarith+
  show ?thesis unfolding current_width_def by (simp add: a)
qed

lemma current_width_sample:
  "current_width lw 150 (real k) =
           (if k < 10 \<or> 140 < k then py_int (fmul (float_of_int lw) (fl (6 / 10)))
            else if k < 20 \<or> 130 < k then py_int (fmul (float_of_int lw) (fl (8 / 10)))
            else lw)"
  unfolding current_width_def by simp

lemma substep_class:
  assumes "real i < x" "x < real i + 1"
  shows "current_width lw 150 x = current_width lw 150 (real (if i < 130 then i else i + 1))"
  unfolding current_width_inside[OF assms] current_width_sample by auto

section \<open>The claims\<close>

text \<open>
  C2. For every requested size \<open>sz\<close>, the image that \<open>generate_icon\<close> produces has exactly
  \<open>sz \<times> sz\<close> pixels (\<open>sz\<close> rows of \<open>sz\<close> pixels, and \<open>sz \<ge> 0\<close>) and is an RGB image:
  mode \<open>RGB\<close>, every pixel a triple of channels, no alpha.
\<close>

theorem generate_icon_size_mode:
  assumes "generate_icon lm output_dir sz w = (w', Inr p)"
  shows "\<exists>img. fs w' p = Some (File (Png img)) \<and> 0 \<le> sz \<and> im_mode img = RGB \<and>
           im_size img = (sz, sz) \<and> length (im_data img) = nat sz \<and>
           list_all (\<lambda>row. length row = nat sz) (im_data img)"
proof -
  from assms obtain img
    where r: "render lm sz = Inr img" and f: "fs w' p = Some (File (Png img))"
    by (rule generate_icon_Inr)
  from r have "well_formed sz img" by (rule well_formed_render)
  with f show ?thesis unfolding well_formed_def by blast
qed

theorem generate_icon_size_mode_witness:
  "snd (generate_icon taylor_libm [''repo'', ''assets'', ''icon_output''] 1024 fresh_world) =
     Inr [''repo'', ''assets'', ''icon_output'', ''AppIcon-1024x1024.png''] \<and>
   (\<exists>img.
      fs (fst (generate_icon taylor_libm [''repo'', ''assets'', ''icon_output''] 1024 fresh_world))
         [''repo'', ''assets'', ''icon_output'', ''AppIcon-1024x1024.png''] = Some (File (Png img)) \<and>
      (0::int) \<le> 1024 \<and> im_mode img = RGB \<and> im_size img = (1024, 1024) \<and>
      length (im_data img) = nat 1024 \<and>
      list_all (\<lambda>row. length row = nat 1024) (im_data img))"
proof -
  let ?r = "generate_icon taylor_libm [''repo'', ''assets'', ''icon_output''] 1024 fresh_world"
  have h: "?r = (fst ?r, Inr [''repo'', ''assets'', ''icon_output'', ''AppIcon-1024x1024.png''])"
    by (simp add: prod_eq_iff generate_icon_fresh)
  from generate_icon_size_mode[OF h] generate_icon_fresh show ?thesis by simp
qed

text \<open>
  C4, as stated, fails for a small image: at size 32 the line width is \<open>int(16 * 32 / 1024)
  = 0\<close>, so sample 0 and sample 75 both get the width 0.
\<close>

theorem taper_counterexample: "\<not> sample_width 32 0 < sample_width 32 75"
  by (simp add: sample_width_def current_width_def num_points_def line_width_of_def fmul_def
      fdiv_def float_of_int_def py_int_def fl_eval)

text \<open>
  C4, amended. For every size \<open>sz \<ge> 64\<close> the stroke width at sample 0 is strictly less than
  the width at the midpoint sample 75, and the width tapers in two discrete bands at each
  end: samples 0..9 and 141..149 get \<open>int(line_width * 0.6)\<close>, samples 10..19 and 131..140
  get \<open>int(line_width * 0.8)\<close>, samples 20..130 the full line width, with
  \<open>int(line_width * 0.6) \<le> int(line_width * 0.8) < line_width\<close>. The tapered samples are the
  first 20 and the last 19 of the 150.
\<close>

theorem taper_from_64:
  assumes "64 \<le> sz"
  shows "sample_width sz 0 < sample_width sz 75 \<and>
         taper_60 sz \<le> taper_80 sz \<and> taper_80 sz < line_width_of sz \<and>
         (\<forall>i<150. sample_width sz i =
            (if i < 10 \<or> 140 < i then taper_60 sz
             else if i < 20 \<or> 130 < i then taper_80 sz
             else line_width_of sz))"
proof -
  have lw: "1 \<le> line_width_of sz" using assms by (rule line_width_ge_1)
  have a: "taper_60 sz < line_width_of sz"
    unfolding taper_60_def using lw by (rule taper_less) (simp_all add: lit_0_6)
  have b: "taper_80 sz < line_width_of sz"
    unfolding taper_80_def using lw by (rule taper_less) (simp_all add: lit_0_8)
  have c: "taper_60 sz \<le> taper_80 sz"
    unfolding taper_60_def taper_80_def using lw by (intro taper_mono) (simp_all add: lit_0_6 lit_0_8)
  have d: "sample_width sz i =
            (if i < 10 \<or> 140 < i then taper_60 sz
             else if i < 20 \<or> 130 < i then taper_80 sz
             else line_width_of sz)" for i
    by (simp add: sample_width_def current_width_def num_points_def taper_60_def taper_80_def)
  from a b c d show ?thesis by simp
qed

theorem taper_from_64_witness:
  "(64::int) \<le> 1024 \<and> sample_width 1024 0 < sample_width 1024 75 \<and>
   taper_60 1024 \<le> taper_80 1024 \<and> taper_80 1024 < line_width_of 1024 \<and>
   (5::nat) < 150 \<and> sample_width 1024 5 = taper_60 1024 \<and>
   (135::nat) < 150 \<and> sample_width 1024 135 = taper_80 1024 \<and>
   (75::nat) < 150 \<and> sample_width 1024 75 = line_width_of 1024"
  using taper_from_64[of 1024] by simp

text \<open>
  C8, as stated, fails for a small image: at size 10 the maximum radius is 7 and the layers
  0, 1 and 2 are all drawn, with the radii 7, 6 and 6; layer 1 is not strictly larger than
  layer 2.
\<close>

theorem radii_counterexample:
  "0 < layer_radius (max_radius_of 10) 0 \<and> 0 < layer_radius (max_radius_of 10) 1 \<and>
   0 < layer_radius (max_radius_of 10) 2 \<and>
   \<not> layer_radius (max_radius_of 10) 2 < layer_radius (max_radius_of 10) 1"
  by (simp add: max_radius_10)
    (simp add: layer_radius_def num_layers_def fmul_def fsub_def int_truediv_def float_of_int_def
      py_int_def fl_eval)

text \<open>
  C8, amended. For every size outside 3..40 (the script renders 1024), the radii of the
  layers that are drawn are strictly decreasing from the outermost to the innermost: for
  drawn layer indices \<open>i < j\<close> the radius of layer \<open>i\<close> is strictly greater than the
  positive radius of layer \<open>j\<close>, so the later circle lies inside the earlier one and is
  drawn over it. The layers drawn are those before the first radius \<open>\<le> 0\<close>, where the loop
  ends: at most one for a size below 3, the layers 0 to 28 for the sizes 41 to 43, all 30
  from size 44 on. The bound is sharp: at size 40 the layers 14 and 15 share the radius 14
  (lemma \<open>radii_repeat_40\<close>).
\<close>

theorem radii_strictly_decreasing:
  assumes "sz < 3 \<or> 40 < sz" and "i < j" and "j \<in> set (drawn_layers (max_radius_of sz))"
  shows "i \<in> set (drawn_layers (max_radius_of sz)) \<and>
         layer_radius (max_radius_of sz) j < layer_radius (max_radius_of sz) i \<and>
         0 < layer_radius (max_radius_of sz) j \<and>
         (\<forall>p. in_ellipse (layer_box center (max_radius_of sz) j) p \<longrightarrow>
              in_ellipse (layer_box center (max_radius_of sz) i) p) \<and>
         background center (max_radius_of sz) [0..<num_layers] img =
           fold (\<lambda>k. ellipse (layer_box center (max_radius_of sz) k) (layer_color k))
             (drawn_layers (max_radius_of sz)) img"
proof -
  let ?M = "max_radius_of sz"
  define L where "L = length (drawn_layers ?M)"
  have d: "drawn_layers ?M = [0..<L]" unfolding L_def by (rule drawn_layers_prefix)
  have j: "j < L" using assms(3) by (subst (asm) d) simp
  have i: "i \<in> set (drawn_layers ?M)" using assms(2) j by (subst d) simp
  have lt: "layer_radius ?M j < layer_radius ?M i" and pos: "0 < layer_radius ?M j"
    using drawn_layers_cases[OF assms(1)] assms(2) j unfolding L_def by blast+
  have inside: "in_ellipse (layer_box center ?M i) p" if "in_ellipse (layer_box center ?M j) p" for p
  proof -
    obtain px py where p: "p = (px, py)" by (cases p)
    have posi: "0 < layer_radius ?M i" using lt pos by simp
    from that have "(px - center)\<^sup>2 + (py - center)\<^sup>2 \<le> (layer_radius ?M j)\<^sup>2"
      unfolding p layer_box_def Let_def by (simp only: in_circle[OF pos])
    also have "\<dots> \<le> (layer_radius ?M i)\<^sup>2"
      using lt pos by (intro power_mono) simp_all
    finally show ?thesis
      unfolding p layer_box_def Let_def by (simp only: in_circle[OF posi])
  qed
  have "background center ?M [0..<num_layers] img =
           fold (\<lambda>k. ellipse (layer_box center ?M k) (layer_color k)) (drawn_layers ?M) img"
    unfolding drawn_layers_def by (rule background_takeWhile)
  with i lt pos inside show ?thesis by blast
qed

theorem radii_strictly_decreasing_witness:
  "(40::int) < 41 \<and> (0::nat) < 28 \<and> 28 \<in> set (drawn_layers (max_radius_of 41)) \<and>
   0 \<in> set (drawn_layers (max_radius_of 41)) \<and>
   layer_radius (max_radius_of 41) 28 < layer_radius (max_radius_of 41) 0 \<and>
   0 < layer_radius (max_radius_of 41) 28"
proof -
  have "28 \<in> set (drawn_layers (max_radius_of 41))"
    by (simp add: max_radius_41 drawn_layers_29)
  from radii_strictly_decreasing[of 41 0 28, OF _ _ this] this show ?thesis by simp
qed

text \<open>
  C7, as stated, fails in its last part: the width of a sub-step is not interpolated between
  the taper classes of the two adjacent samples. At size 1024 the samples 9 and 10 have
  the widths 9 and 12; the sub-step halfway between them (\<open>j = 4\<close> of the 8 steps) is
  drawn with the width 9, where the interpolation gives 10.5. The samples 130 and 131 have
  the widths 16 and 12; the sub-step halfway between them is drawn with the width 12, where
  the interpolation gives 14.
\<close>

theorem width_not_interpolated_counterexample:
  "current_width (line_width_of 1024) 150 9 = 9 \<and>
   current_width (line_width_of 1024) 150 10 = 12 \<and>
   substep_width (line_width_of 1024) 150 9 8 4 = 9 \<and>
   interpolated_width 9 12 (int_truediv 4 8) = 21 / 2 \<and>
   current_width (line_width_of 1024) 150 130 = 16 \<and>
   current_width (line_width_of 1024) 150 131 = 12 \<and>
   substep_width (line_width_of 1024) 150 130 8 4 = 12 \<and>
   interpolated_width 16 12 (int_truediv 4 8) = 14"
  by (simp add: current_width_def substep_width_def interpolated_width_def line_width_of_def
      fmul_def fdiv_def fadd_def int_truediv_def float_of_int_def py_int_def fl_eval)

text \<open>
  C7, amended. For every pair of consecutive samples of a list of 150 points, the segment is
  subdivided into \<open>steps = max(int(length / 4), 8)\<close> steps, at least 8 and otherwise the
  integer part of a quarter of the Euclidean pixel length of the segment (exactly so while
  the coordinates differ by less than \<open>2\<^sup>2\<^sup>3\<close>); a filled circle is drawn at each sub-step
  \<open>j = 1, \<dots>, steps - 1\<close>; and the width used at a sub-step is the taper class selected by
  the fractional index \<open>i + j / steps\<close> with the thresholds of the samples. This index lies
  strictly between \<open>i\<close> and \<open>i + 1\<close>, so all sub-steps of segment \<open>i\<close> get one width: the
  width of sample \<open>i\<close> on the segments up to 129 and the width of sample \<open>i + 1\<close> on the
  segments from 130 on. It is never a value between the two.
\<close>

theorem segment_subdivision:
  assumes "length points = num_points" and "i + 1 < length points"
    and "p1 = points ! i" and "p2 = points ! (i + 1)" and "steps = segment_steps p1 p2"
  shows "8 \<le> steps \<and>
         (\<bar>fst p2 - fst p1\<bar> < 2 ^ 23 \<and> \<bar>snd p2 - snd p1\<bar> < 2 ^ 23 \<longrightarrow>
            steps = max \<lfloor>sqrt (of_int ((fst p2 - fst p1)\<^sup>2 + (snd p2 - snd p1)\<^sup>2)) / 4\<rfloor> 8) \<and>
         draw_segment line_width points i img =
           fold (\<lambda>j. ellipse (disc (substep_width line_width (int num_points) i steps j)
                                   (substep_point p1 p2 (int_truediv (int j) steps))) white)
             [1..<nat steps] img \<and>
         (\<forall>j. 1 \<le> j \<and> int j < steps \<longrightarrow>
            substep_width line_width (int num_points) i steps j =
              current_width line_width (int num_points) (of_nat i) \<or>
            substep_width line_width (int num_points) i steps j =
              current_width line_width (int num_points) (of_nat (i + 1))) \<and>
         (\<bar>fst p2 - fst p1\<bar> < 2 ^ 23 \<and> \<bar>snd p2 - snd p1\<bar> < 2 ^ 23 \<longrightarrow>
            (\<forall>j. 1 \<le> j \<and> int j < steps \<longrightarrow>
               substep_width line_width (int num_points) i steps j =
                 current_width line_width (int num_points) (real i + real j / real_of_int steps) \<and>
               substep_width line_width (int num_points) i steps j =
                 current_width line_width (int num_points)
                   (of_nat (if i < 130 then i else i + 1))))"
proof -
  have 1: "8 \<le> steps" unfolding assms(5) by (rule segment_steps_ge_8)
  have 2: "steps = max \<lfloor>sqrt (of_int ((fst p2 - fst p1)\<^sup>2 + (snd p2 - snd p1)\<^sup>2)) / 4\<rfloor> 8"
    if "\<bar>fst p2 - fst p1\<bar> < 2 ^ 23" "\<bar>snd p2 - snd p1\<bar> < 2 ^ 23"
    using segment_steps_exact[OF that] unfolding assms(5) by simp
  have 3: "draw_segment line_width points i img =
           fold (\<lambda>j. ellipse (disc (substep_width line_width (int num_points) i steps j)
                                   (substep_point p1 p2 (int_truediv (int j) steps))) white)
             [1..<nat steps] img"
    by (simp add: draw_segment_def Let_def assms)
  have i: "i < 2 ^ 52" "i < 256" using assms(1,2) by (simp_all add: num_points_def)
  have 4: "substep_width line_width (int num_points) i steps j =
              current_width line_width (int num_points) (of_nat i) \<or>
            substep_width line_width (int num_points) i steps j =
              current_width line_width (int num_points) (of_nat (i + 1))"
    if "int j < steps" for j
    unfolding substep_width_def
    using point_idx_range[OF i(1), of steps j] 1 that by (intro current_width_between) simp_all
  have 5: "substep_width line_width (int num_points) i steps j =
                 current_width line_width (int num_points) (real i + real j / real_of_int steps) \<and>
               substep_width line_width (int num_points) i steps j =
                 current_width line_width (int num_points)
                   (of_nat (if i < 130 then i else i + 1))"
    if c: "\<bar>fst p2 - fst p1\<bar> < 2 ^ 23" "\<bar>snd p2 - snd p1\<bar> < 2 ^ 23"
      and j: "1 \<le> j" "int j < steps" for j
  proof -
    have "segment_steps (fst p1, snd p1) (fst p2, snd p2) \<le> 2 ^ 22"
      using c by (rule segment_steps_bound)
    then have st: "steps \<le> 2 ^ 40" unfolding assms(5) by simp
    note a = point_idx_strict[OF i(2) j st]
    note b = fraction_strict[OF j, of i]
    have n: "int num_points = 150" by (simp add: num_points_def)
    show ?thesis
      unfolding substep_width_def n substep_class[OF a] substep_class[OF b] by simp
  qed
  from 1 2 3 4 5 show ?thesis by blast
qed

theorem segment_subdivision_witness:
  "length straight_points = num_points \<and> 130 + 1 < length straight_points \<and>
   8 \<le> segment_steps (straight_points ! 130) (straight_points ! 131) \<and>
   \<bar>fst (straight_points ! 131) - fst (straight_points ! 130)\<bar> < 2 ^ 23 \<and>
   \<bar>snd (straight_points ! 131) - snd (straight_points ! 130)\<bar> < 2 ^ 23 \<and>
   segment_steps (straight_points ! 130) (straight_points ! 131) = max \<lfloor>sqrt 25 / 4\<rfloor> 8 \<and>
   (1::nat) \<le> 4 \<and> 4 < segment_steps (straight_points ! 130) (straight_points ! 131) \<and>
   substep_width 16 (int num_points) 130
       (segment_steps (straight_points ! 130) (straight_points ! 131)) 4 =
     current_width 16 (int num_points) 131 \<and>
   current_width 16 (int num_points) 131 = 12 \<and>
   current_width 16 (int num_points) 130 = 16"
proof -
  have l: "length straight_points = num_points" by (simp add: straight_points_def num_points_def)
  have p: "straight_points ! 130 = (720, 360)" "straight_points ! 131 = (724, 357)"
    by (simp_all add: straight_points_def)
  have b: "130 + 1 < length straight_points" by (simp add: straight_points_def)
  let ?p1 = "straight_points ! 130"
  let ?p2 = "straight_points ! (130 + 1)"
  let ?st = "segment_steps ?p1 ?p2"
  note T = segment_subdivision[OF l b refl refl refl, of 16]
  have d: "\<bar>fst ?p2 - fst ?p1\<bar> < 2 ^ 23 \<and> \<bar>snd ?p2 - snd ?p1\<bar> < 2 ^ 23"
    by (simp add: p)
  from T have 8: "8 \<le> ?st" by blast
  from T d have "?st = max \<lfloor>sqrt (of_int ((fst ?p2 - fst ?p1)\<^sup>2 + (snd ?p2 - snd ?p1)\<^sup>2)) / 4\<rfloor> 8"
    by blast
  then have e: "?st = max \<lfloor>sqrt 25 / 4\<rfloor> 8" by (simp add: p)
  from T d have "\<forall>j. 1 \<le> j \<and> int j < ?st \<longrightarrow>
       substep_width 16 (int num_points) 130 ?st j =
         current_width 16 (int num_points) (real 130 + real j / real_of_int ?st) \<and>
       substep_width 16 (int num_points) 130 ?st j =
         current_width 16 (int num_points) (of_nat (if (130::nat) < 130 then 130 else 130 + 1))"
    by blast
  then have "1 \<le> (4::nat) \<and> int 4 < ?st \<longrightarrow>
       substep_width 16 (int num_points) 130 ?st 4 =
         current_width 16 (int num_points) (of_nat (if (130::nat) < 130 then 130 else 130 + 1))"
    by blast
  with 8 have w: "substep_width 16 (int num_points) 130 ?st 4 = current_width 16 (int num_points) 131"
    by simp
  have c: "current_width 16 (int num_points) 131 = 12" "current_width 16 (int num_points) 130 = 16"
    by (simp_all add: current_width_def num_points_def fmul_def float_of_int_def py_int_def fl_eval)
  from l b 8 d e w c show ?thesis by simp
qed

text \<open>
  C10. At the default size 1024, with the constants of the script (start (200, 750), end
  (800, 250), amplitude 80, frequency 1.2) and a C library whose sine and cosine stay in
  \<open>[-1, 1]\<close>, every filled circle drawn for the curve, at a sample or at a sub-step, lies
  within the canvas: its bounding box \<open>x \<plusminus> width // 2\<close>, \<open>y \<plusminus> width // 2\<close> stays within \<open>[0,
  1024)\<close> in both directions, so no such call relies on clipping.
\<close>

theorem curve_within_canvas:
  assumes "libm_bounded lm"
  shows "list_all (inside_canvas 1024) (curve_discs lm 1024) \<and>
         draw_elegant_curve lm (fdiv (float_of_int 1024) 1024) (line_width_of 1024) img =
           fold (\<lambda>bb. ellipse bb white) (curve_discs lm 1024) img"
proof -
  let ?pts = "curve_points lm 1"
  have pt: "120 \<le> fst (?pts ! i) \<and> fst (?pts ! i) \<le> 880 \<and>
            202 \<le> snd (?pts ! i) \<and> snd (?pts ! i) \<le> 798" if "i < 150" for i
    using curve_point_range[OF assms that] that by (simp add: nth_curve_points)
  have 1: "inside_canvas 1024 bb" if "bb \<in> set (sample_discs 16 ?pts)" for bb
  proof -
    from that obtain i where i: "i < 150" and bb: "bb = disc (current_width 16 150 (of_nat i)) (?pts ! i)"
      by (auto simp: sample_discs_def)
    show ?thesis unfolding bb using pt[OF i] by (intro disc_inside current_width_16) simp_all
  qed
  have 2: "inside_canvas 1024 bb" if "bb \<in> set (segment_discs 16 ?pts i)" and i: "i < 149" for bb i
  proof -
    define p1 where "p1 = ?pts ! i"
    define p2 where "p2 = ?pts ! (i + 1)"
    define steps where "steps = segment_steps p1 p2"
    from that obtain j where j: "1 \<le> j" "j < nat steps"
      and bb: "bb = disc (substep_width 16 150 i steps j) (substep_point p1 p2 (int_truediv (int j) steps))"
      by (auto simp: segment_discs_def Let_def p1_def p2_def steps_def)
    have st: "8 \<le> steps" unfolding steps_def by (rule segment_steps_ge_8)
    have t: "0 \<le> int_truediv (int j) steps" "int_truediv (int j) steps \<le> 1"
      using j st by (intro truediv_unit; simp)+
    obtain x1 y1 where p1: "p1 = (x1, y1)" by (cases p1)
    obtain x2 y2 where p2: "p2 = (x2, y2)" by (cases p2)
    have "?pts ! i = (x1, y1)" using p1 by (simp add: p1_def)
    then have r1: "120 \<le> x1" "x1 \<le> 880" "202 \<le> y1" "y1 \<le> 798"
      using pt[of i] i by simp_all
    have "?pts ! Suc i = (x2, y2)" using p2 by (simp add: p2_def)
    then have r2: "120 \<le> x2" "x2 \<le> 880" "202 \<le> y2" "y2 \<le> 798"
      using pt[of "Suc i"] i by simp_all
    have x: "120 \<le> fst (substep_point p1 p2 (int_truediv (int j) steps))"
      "fst (substep_point p1 p2 (int_truediv (int j) steps)) \<le> 880"
      unfolding p1 p2 substep_point_def prod.case fst_conv
      using substep_coordinate_range[OF r1(1,2) r2(1,2) _ _ t] by simp_all
    have y: "202 \<le> snd (substep_point p1 p2 (int_truediv (int j) steps))"
      "snd (substep_point p1 p2 (int_truediv (int j) steps)) \<le> 798"
      unfolding p1 p2 substep_point_def prod.case snd_conv
      using substep_coordinate_range[OF r1(3,4) r2(3,4) _ _ t] by simp_all
    show ?thesis
      unfolding bb substep_width_def using x y by (intro disc_inside current_width_16)
  qed
  have "list_all (inside_canvas 1024) (curve_discs lm 1024)"
    unfolding list_all_iff
  proof
    fix bb assume "bb \<in> set (curve_discs lm 1024)"
    then consider "bb \<in> set (sample_discs 16 ?pts)"
      | i where "i < 149" "bb \<in> set (segment_discs 16 ?pts i)"
      by (auto simp: curve_discs_def Let_def scale_1024 line_width_1024)
    then show "inside_canvas 1024 bb" using 1 2 by cases auto
  qed
  then show ?thesis using draw_elegant_curve_discs[of lm 1024 img] by simp
qed

theorem curve_within_canvas_witness:
  "libm_bounded taylor_libm \<and> list_all (inside_canvas 1024) (curve_discs taylor_libm 1024)"
  using curve_within_canvas[OF taylor_libm_bounded] taylor_libm_bounded by simp

text \<open>
  C5, as stated, fails: for \<open>k = 3\<close> the tolerance of one pixel is exceeded. Sample 3 has the
  horizontal coordinate 217.99 before truncation, so it is drawn at \<open>x = 217\<close> for size 1024
  and at \<open>x = 653 = 3 * 217 + 2\<close> for size 3072. This holds for every C library that is
  accurate in the sense of \<open>libm_accurate\<close> (lemma \<open>sample_3_points\<close>), here for the Taylor
  library.
\<close>

theorem scale_tolerance_counterexample:
  "\<bar>fst (curve_point taylor_libm (fdiv (float_of_int 3072) 1024) 3)
      - 3 * fst (curve_point taylor_libm (fdiv (float_of_int 1024) 1024) 3)\<bar> = 2"
  using sample_3_points[OF taylor_libm_accurate] by (simp add: scale_3072 scale_1024)

text \<open>
  C5, amended. For every scale factor \<open>0 < k < 2\<^sup>4\<^sup>2\<close> and every sample index \<open>i\<close>, each
  coordinate computed at size \<open>k * 1024\<close> lies between \<open>k\<close> times the coordinate computed at
  size 1024 and that plus \<open>k - 1\<close>: \<open>0 \<le> coord(k * 1024, i) - k * coord(1024, i) \<le> k - 1\<close>,
  for \<open>x\<close> and for \<open>y\<close>. The tolerance of one pixel therefore holds for \<open>k \<le> 2\<close>; the
  truncation to integers loses up to a pixel at size 1024, which the factor multiplies.
\<close>

theorem scale_within_k:
  assumes "libm_bounded lm" and "0 < k" and "k < 2 ^ 42" and "i < num_points"
  shows "k * fst (curve_point lm (fdiv (float_of_int 1024) 1024) i)
           \<le> fst (curve_point lm (fdiv (float_of_int (k * 1024)) 1024) i) \<and>
         fst (curve_point lm (fdiv (float_of_int (k * 1024)) 1024) i)
           \<le> k * fst (curve_point lm (fdiv (float_of_int 1024) 1024) i) + k - 1 \<and>
         k * snd (curve_point lm (fdiv (float_of_int 1024) 1024) i)
           \<le> snd (curve_point lm (fdiv (float_of_int (k * 1024)) 1024) i) \<and>
         snd (curve_point lm (fdiv (float_of_int (k * 1024)) 1024) i)
           \<le> k * snd (curve_point lm (fdiv (float_of_int 1024) 1024) i) + k - 1"
proof -
  have i: "i < 150" using assms(4) by (simp add: num_points_def)
  note r = curve_value_range[OF assms(1) i]
  have x: "120 \<le> curve_x lm i" "curve_x lm i \<le> 880" using r by simp_all
  have y: "120 \<le> curve_y lm i" "curve_y lm i \<le> 880" using r by simp_all
  show ?thesis
    unfolding scale_1024 scale_multiple[OF assms(2,3)] curve_point_eq fst_conv snd_conv
    using scaled_coordinate[OF curve_value_float(1) x assms(2,3)]
      scaled_coordinate[OF curve_value_float(2) y assms(2,3)]
    by simp
qed

theorem scale_within_k_witness:
  "libm_bounded taylor_libm \<and> (0::int) < 3 \<and> (3::int) < 2 ^ 42 \<and> 3 < num_points \<and>
   3 * fst (curve_point taylor_libm (fdiv (float_of_int 1024) 1024) 3)
     \<le> fst (curve_point taylor_libm (fdiv (float_of_int (3 * 1024)) 1024) 3) \<and>
   fst (curve_point taylor_libm (fdiv (float_of_int (3 * 1024)) 1024) 3)
     \<le> 3 * fst (curve_point taylor_libm (fdiv (float_of_int 1024) 1024) 3) + 3 - 1"
  using scale_within_k[OF taylor_libm_bounded, of 3 3] taylor_libm_bounded
  by (simp add: num_points_def)

text \<open>
  C3, as stated, fails in its last part: the corners are not outside the gradient's maximum
  radius. At size 1024 the maximum radius is \<open>int(1024 * 0.72) = 737\<close>, and a corner is
  \<open>\<surd>(512\<^sup>2 + 512\<^sup>2) \<approx> 724.1\<close> from the centre \<open>(512, 512)\<close>: every corner lies inside the
  circle of layer 0.
\<close>

theorem corners_inside_gradient_counterexample:
  "list_all (\<lambda>c. \<not> outside_radius (1024 div 2) (max_radius_of 1024) c \<and>
                 in_ellipse (layer_box (1024 div 2) (max_radius_of 1024) 0) c) (corners 1024)"
  by (simp add: max_radius_1024 layer_box_def layer_radius_737 corners_def outside_radius_def
      in_ellipse_def)

text \<open>
  C3, amended. For size 1024 and a C library whose sine and cosine are bounded by 1 and
  accurate to \<open>2\<^sup>-\<^sup>3\<^sup>0\<close>, rendering returns an image in which the pixel at the centre
  \<open>(512, 512)\<close> has the colour of the innermost layer 29, which is \<open>(137, 92, 245)\<close>, and
  each of the four corner pixels has the base fill colour \<open>(99, 102, 241)\<close>. The corners
  keep this colour because layer 0, which covers them, has the base colour itself, and they
  lie outside the circles of all the layers 1 to 29; no circle of the curve reaches the
  centre or a corner.
\<close>

theorem center_and_corner_pixels:
  assumes "libm_bounded lm" and "libm_accurate lm"
  shows "\<exists>img. render lm 1024 = Inr img \<and>
           getpixel img (512, 512) = layer_color 29 \<and> layer_color 29 = (137, 92, 245) \<and>
           getpixel img (0, 0) = (99, 102, 241) \<and> getpixel img (1023, 0) = (99, 102, 241) \<and>
           getpixel img (0, 1023) = (99, 102, 241) \<and> getpixel img (1023, 1023) = (99, 102, 241) \<and>
           layer_color 0 = (99, 102, 241) \<and>
           list_all (\<lambda>c. list_all (\<lambda>i. \<not> in_ellipse (layer_box 512 (max_radius_of 1024) i) c)
                            [1..<30]) (corners 1024)"
proof -
  let ?img0 = "\<lparr>im_mode = RGB, im_size = (1024, 1024),
      im_data = replicate (nat 1024) (replicate (nat 1024) (99, 102, 241))\<rparr>"
  have r: "render lm 1024 = Inr (paint lm 1024 ?img0)" by (simp add: render_cases)
  have c: "getpixel (paint lm 1024 ?img0) (x, y) = (99, 102, 241)"
    if "(int x, int y) \<in> set (corners 1024)" for x y
    using assms that by (rule rendered_pixels(2))
  have "getpixel (paint lm 1024 ?img0) (0, 0) = (99, 102, 241)"
    "getpixel (paint lm 1024 ?img0) (1023, 0) = (99, 102, 241)"
    "getpixel (paint lm 1024 ?img0) (0, 1023) = (99, 102, 241)"
    "getpixel (paint lm 1024 ?img0) (1023, 1023) = (99, 102, 241)"
    by (rule c, simp add: corners_def)+
  moreover have "getpixel (paint lm 1024 ?img0) (512, 512) = layer_color 29"
    using assms by (rule rendered_pixels(1))
  moreover have "list_all (\<lambda>c. list_all (\<lambda>i. \<not> in_ellipse (layer_box 512 (max_radius_of 1024) i) c)
                            [1..<30]) (corners 1024)"
    unfolding list_all_iff max_radius_1024 using corner_outside_layers by simp
  ultimately show ?thesis using r layer_color_values by blast
qed

theorem center_and_corner_pixels_witness:
  "libm_bounded taylor_libm \<and> libm_accurate taylor_libm \<and>
   (\<exists>img. render taylor_libm 1024 = Inr img \<and> getpixel img (512, 512) = (137, 92, 245) \<and>
      getpixel img (0, 0) = (99, 102, 241) \<and> getpixel img (1023, 1023) = (99, 102, 241))"
  using center_and_corner_pixels[OF taylor_libm_bounded taylor_libm_accurate]
    taylor_libm_bounded taylor_libm_accurate by auto




end
